theory Spec2Isabelle
  imports
    Main
    "HOL-Library.AList"
    "HOL-Library.Sublist"
    "HOL-Library.Char_ord"
    "HOL-Library.List_Lexorder"
begin

section \<open>The assembly-dependency validator (scripts/validate-circular-dependencies.py)\<close>

text \<open>
  The validator reads assembly definition files, builds a dependency graph between the
  assemblies it knows, looks for a circular dependency by depth-first search and checks
  that no ``Shared'' assembly references a feature assembly.

  File discovery (\<^verbatim>\<open>find_asmdef_files\<close>) and JSON parsing (\<^verbatim>\<open>parse_asmdef\<close>) are
  input/output; the model starts from their result: one entry per discovered file, \<open>None\<close>
  where \<^verbatim>\<open>parse_asmdef\<close> caught an exception and returned \<^verbatim>\<open>None\<close>, and otherwise the
  dictionary with the keys \<^verbatim>\<open>name\<close>, \<^verbatim>\<open>references\<close> and \<^verbatim>\<open>path\<close>.
\<close>

subsection \<open>Data\<close>

record asmdef =
  asmdef_name :: string
  asmdef_references :: "string list"
  asmdef_path :: string

text \<open>
  A Python \<^verbatim>\<open>dict\<close> keeps its keys in insertion order, and that order decides the order
  of every loop of the script. Both dictionaries are therefore association lists:
  \<^const>\<open>AList.update\<close> replaces the value of a key that is present where it stands and
  appends a key that is new, as \<^verbatim>\<open>d[k] = v\<close> does.
\<close>

type_synonym assemblies = "(string \<times> asmdef) list"

type_synonym graph = "(string \<times> string list) list"

text \<open>The exceptions that the modelled statements can raise.\<close>

datatype error = RecursionError | ValueError | KeyError

subsection \<open>Strings\<close>

text \<open>\<^verbatim>\<open>sub in s\<close> on Python strings: \<open>sub\<close> occurs in \<open>s\<close> as a contiguous substring.\<close>

fun str_contains :: "string \<Rightarrow> string \<Rightarrow> bool" where
  "str_contains sub [] = (sub = [])"
| "str_contains sub (c # cs) = (prefix sub (c # cs) \<or> str_contains sub cs)"

subsection \<open>\<^verbatim>\<open>build_dependency_graph\<close>\<close>

text \<open>First pass: \<^verbatim>\<open>if asmdef: assemblies[asmdef['name']] = asmdef\<close> for every file.\<close>

fun collect_assemblies :: "asmdef option list \<Rightarrow> assemblies \<Rightarrow> assemblies" where
  "collect_assemblies [] assemblies = assemblies"
| "collect_assemblies (None # rest) assemblies = collect_assemblies rest assemblies"
| "collect_assemblies (Some asmdef # rest) assemblies =
     collect_assemblies rest (AList.update (asmdef_name asmdef) asmdef assemblies)"

text \<open>
  \<^verbatim>\<open>graph[name].append(ref)\<close> on a \<^verbatim>\<open>defaultdict(list)\<close>: a missing key is first
  inserted, at the end, with the empty list.
\<close>

definition graph_append :: "graph \<Rightarrow> string \<Rightarrow> string \<Rightarrow> graph" where
  "graph_append graph name ref =
     (case map_of graph name of
        None \<Rightarrow> graph @ [(name, [ref])]
      | Some refs \<Rightarrow> AList.update name (refs @ [ref]) graph)"

text \<open>The inner loop of the second pass, over the references of one assembly.\<close>

fun add_references :: "assemblies \<Rightarrow> string \<Rightarrow> string list \<Rightarrow> graph \<Rightarrow> graph" where
  "add_references assemblies name [] graph = graph"
| "add_references assemblies name (ref # rest) graph =
     (if ref \<in> set (map fst assemblies)
      then add_references assemblies name rest (graph_append graph name ref)
      else add_references assemblies name rest graph)"

text \<open>The outer loop of the second pass, over \<^verbatim>\<open>assemblies.items()\<close>.\<close>

fun add_assemblies :: "assemblies \<Rightarrow> (string \<times> asmdef) list \<Rightarrow> graph \<Rightarrow> graph" where
  "add_assemblies assemblies [] graph = graph"
| "add_assemblies assemblies ((name, asmdef) # rest) graph =
     add_assemblies assemblies rest
       (add_references assemblies name (asmdef_references asmdef) graph)"

definition build_dependency_graph :: "asmdef option list \<Rightarrow> graph \<times> assemblies" where
  "build_dependency_graph asmdef_files =
     (let assemblies = collect_assemblies asmdef_files [];
          graph = add_assemblies assemblies assemblies []
      in (graph, assemblies))"

subsection \<open>\<^verbatim>\<open>detect_circular_dependencies\<close>\<close>

text \<open>\<^verbatim>\<open>graph.get(node, [])\<close>: a lookup that inserts nothing.\<close>

definition graph_get :: "graph \<Rightarrow> string \<Rightarrow> string list" where
  "graph_get graph node = (case map_of graph node of None \<Rightarrow> [] | Some refs \<Rightarrow> refs)"

text \<open>\<^verbatim>\<open>path.index(x)\<close>: the first position of \<open>x\<close>, or \<^verbatim>\<open>ValueError\<close>.\<close>

fun list_index :: "string list \<Rightarrow> string \<Rightarrow> error + nat" where
  "list_index [] x = Inl ValueError"
| "list_index (y # ys) x =
     (if y = x then Inr 0
      else (case list_index ys x of Inl e \<Rightarrow> Inl e | Inr i \<Rightarrow> Inr (Suc i)))"

text \<open>The truth value of \<^verbatim>\<open>if cycle:\<close>, for a value that is \<^verbatim>\<open>None\<close> or a list.\<close>

fun truthy :: "string list option \<Rightarrow> bool" where
  "truthy None = False"
| "truthy (Some xs) = (xs \<noteq> [])"

text \<open>
  The nested function \<^verbatim>\<open>dfs\<close> mutates the two sets it is given; the model passes them
  in and returns them with the result. \<open>dfs\<close> is the body of the function and
  \<open>dfs_for\<close> its loop over the neighbours that remain; the result of the loop is
  \<open>Some cycle\<close> when the loop executed \<^verbatim>\<open>return\<close> and \<open>None\<close> when it ran to its end.

  The recursion is as deep as the path it follows, and CPython raises
  \<^verbatim>\<open>RecursionError\<close> when the interpreter's limit is reached. The first argument is the
  number of frames of \<^verbatim>\<open>dfs\<close> that may still be entered: a call with none left raises,
  and every other call passes one frame less to the calls in its loop.
\<close>

fun dfs :: "nat \<Rightarrow> graph \<Rightarrow> string \<Rightarrow> string set \<Rightarrow> string set \<Rightarrow> string list
              \<Rightarrow> error + (string list option \<times> string set \<times> string set)"
and dfs_for :: "nat \<Rightarrow> graph \<Rightarrow> string list \<Rightarrow> string \<Rightarrow> string set \<Rightarrow> string set \<Rightarrow> string list
              \<Rightarrow> error + (string list option \<times> string set \<times> string set)"
where
  "dfs 0 graph node visited rec_stack path = Inl RecursionError"
| "dfs (Suc depth) graph node visited rec_stack path =
     (case dfs_for depth graph (graph_get graph node) node
             (insert node visited) (insert node rec_stack) path of
        Inl e \<Rightarrow> Inl e
      | Inr (Some cycle, visited', rec_stack') \<Rightarrow> Inr (Some cycle, visited', rec_stack')
      | Inr (None, visited', rec_stack') \<Rightarrow>
          (if node \<in> rec_stack' then Inr (None, visited', rec_stack' - {node})
           else Inl KeyError))"
| "dfs_for depth graph [] node visited rec_stack path = Inr (None, visited, rec_stack)"
| "dfs_for depth graph (neighbor # rest) node visited rec_stack path =
     (if neighbor \<notin> visited then
        (case dfs depth graph neighbor visited rec_stack (path @ [neighbor]) of
           Inl e \<Rightarrow> Inl e
         | Inr (cycle, visited', rec_stack') \<Rightarrow>
             (if truthy cycle then Inr (cycle, visited', rec_stack')
              else dfs_for depth graph rest node visited' rec_stack' path))
      else if neighbor \<in> rec_stack then
        (case list_index path neighbor of
           Inl e \<Rightarrow> Inl e
         | Inr cycle_start \<Rightarrow> Inr (Some (drop cycle_start path @ [neighbor]), visited, rec_stack))
      else dfs_for depth graph rest node visited rec_stack path)"

text \<open>
  The loop \<^verbatim>\<open>for node in graph\<close> of the outer function, over the keys that remain. Each
  search starts with a fresh \<^verbatim>\<open>set()\<close> as recursion stack and the path \<^verbatim>\<open>[node]\<close>.
\<close>

fun detect_for :: "nat \<Rightarrow> graph \<Rightarrow> string list \<Rightarrow> string set \<Rightarrow> error + (string list option \<times> string set)" where
  "detect_for depth graph [] visited = Inr (None, visited)"
| "detect_for depth graph (node # rest) visited =
     (if node \<notin> visited then
        (case dfs depth graph node visited {} [node] of
           Inl e \<Rightarrow> Inl e
         | Inr (cycle, visited', rec_stack') \<Rightarrow>
             (if truthy cycle then Inr (cycle, visited')
              else detect_for depth graph rest visited'))
      else detect_for depth graph rest visited)"

definition detect_circular_dependencies :: "nat \<Rightarrow> graph \<Rightarrow> error + string list option" where
  "detect_circular_dependencies depth graph =
     (case detect_for depth graph (map fst graph) {} of
        Inl e \<Rightarrow> Inl e
      | Inr (cycle, visited) \<Rightarrow> Inr cycle)"

subsection \<open>\<^verbatim>\<open>validate_shared_namespace_isolation\<close>\<close>

text \<open>
  A violation is the formatted message of the source, which names the shared assembly
  and the reference; the model keeps the two names.
\<close>

definition shared_assemblies :: "assemblies \<Rightarrow> string list" where
  "shared_assemblies assemblies = filter (\<lambda>name. str_contains ''Shared'' name) (map fst assemblies)"

definition feature_assemblies :: "assemblies \<Rightarrow> string list" where
  "feature_assemblies assemblies =
     filter (\<lambda>name. \<not> (str_contains ''Shared'' name \<or> str_contains ''Unity.'' name)) (map fst assemblies)"

definition validate_shared_namespace_isolation :: "graph \<Rightarrow> assemblies \<Rightarrow> (string \<times> string) list" where
  "validate_shared_namespace_isolation graph assemblies =
     concat (map (\<lambda>shared.
               map (\<lambda>ref. (shared, ref))
                 (filter (\<lambda>ref. ref \<in> set (feature_assemblies assemblies)) (graph_get graph shared)))
             (shared_assemblies assemblies))"

subsection \<open>\<^verbatim>\<open>main\<close>\<close>

text \<open>
  The lines that \<^verbatim>\<open>main\<close> prints, one constructor for each \<^verbatim>\<open>print\<close> statement, with the
  values it formats; the result of \<^verbatim>\<open>main\<close> is the printed lines and the value it
  returns, which \<^verbatim>\<open>sys.exit\<close> makes the exit code of the process. An exception that
  leaves \<^verbatim>\<open>main\<close> is the result \<open>Inl\<close>.
\<close>

datatype line =
    Analyzing
  | FoundFiles nat
  | Discovered nat
  | AssemblyLine string nat
  | CheckingCycles
  | CycleDetected
  | CyclePath "string list"
  | NoCycles
  | ValidatingIsolation
  | IsolationViolations
  | ViolationLine "string \<times> string"
  | IsolationOk
  | AllPassed

definition main_header :: "asmdef option list \<Rightarrow> graph \<Rightarrow> assemblies \<Rightarrow> line list" where
  "main_header asmdef_files graph assemblies =
     [Analyzing, FoundFiles (length asmdef_files), Discovered (length assemblies)]
     @ map (\<lambda>name. AssemblyLine name (length (graph_get graph name))) (sort (map fst assemblies))
     @ [CheckingCycles]"

definition main_isolation :: "line list \<Rightarrow> graph \<Rightarrow> assemblies \<Rightarrow> line list \<times> int" where
  "main_isolation out graph assemblies =
     (let violations = validate_shared_namespace_isolation graph assemblies
      in if violations \<noteq> []
         then (out @ [NoCycles, ValidatingIsolation, IsolationViolations] @ map ViolationLine violations, 1)
         else (out @ [NoCycles, ValidatingIsolation, IsolationOk, AllPassed], 0))"

definition main :: "nat \<Rightarrow> asmdef option list \<Rightarrow> error + (line list \<times> int)" where
  "main depth asmdef_files =
     (case build_dependency_graph asmdef_files of (graph, assemblies) \<Rightarrow>
        (let out = main_header asmdef_files graph assemblies
         in case detect_circular_dependencies depth graph of
              Inl e \<Rightarrow> Inl e
            | Inr cycle \<Rightarrow>
                (if truthy cycle
                 then Inr (out @ [CycleDetected, CyclePath (case cycle of Some c \<Rightarrow> c | None \<Rightarrow> [])], 1)
                 else Inr (main_isolation out graph assemblies))))"

section \<open>Vocabulary of the properties\<close>

subsection \<open>Graphs, walks and cycles\<close>

text \<open>
  The edges of a graph are what the detector and the checker read from it:
  \<open>v\<close> is a successor of \<open>u\<close> when \<^verbatim>\<open>graph.get(u, [])\<close> contains \<open>v\<close>. The nodes are the
  keys and the successors of the keys.
\<close>

definition edges :: "graph \<Rightarrow> (string \<times> string) set" where
  "edges g = {(u, v). v \<in> set (graph_get g u)}"

definition graph_nodes :: "graph \<Rightarrow> string list" where
  "graph_nodes g = remdups (map fst g @ concat (map (\<lambda>(u, ns). graph_get g u) g))"

text \<open>A walk: every entry is followed by one of its successors.\<close>

definition walk :: "graph \<Rightarrow> string list \<Rightarrow> bool" where
  "walk g p = successively (\<lambda>u v. v \<in> set (graph_get g u)) p"

text \<open>
  A simple cycle, written without the repeated closing node: a walk over distinct nodes
  whose last node has the first one as a successor. Its length is the number of its nodes
  and of its edges, and every rotation of it is the same cycle.
\<close>

definition simple_cycle :: "graph \<Rightarrow> string list \<Rightarrow> bool" where
  "simple_cycle g c \<longleftrightarrow> c \<noteq> [] \<and> distinct c \<and> walk g c \<and> hd c \<in> set (graph_get g (last c))"

definition reaches_cycle :: "graph \<Rightarrow> string \<Rightarrow> bool" where
  "reaches_cycle g k \<longleftrightarrow> (\<exists>v. (k, v) \<in> (edges g)\<^sup>* \<and> (v, v) \<in> (edges g)\<^sup>+)"

subsection \<open>Invariant of the search\<close>

text \<open>
  The nodes that are visited and no longer on the recursion stack are finished. The
  search keeps the finished nodes closed under the edges and free of cycles.
\<close>

definition closed_acyclic :: "graph \<Rightarrow> string set \<Rightarrow> bool" where
  "closed_acyclic g B \<longleftrightarrow>
     (\<forall>u\<in>B. \<forall>v. (u, v) \<in> edges g \<longrightarrow> v \<in> B) \<and> (\<forall>u\<in>B. (u, u) \<notin> (edges g)\<^sup>+)"

text \<open>
  Between two steps of the loop of \<^verbatim>\<open>dfs\<close>: the recursion stack holds exactly the nodes
  of the path, the path is a walk without repetition, and the finished nodes are closed
  and acyclic.
\<close>

definition dfs_inv :: "graph \<Rightarrow> string set \<Rightarrow> string set \<Rightarrow> string list \<Rightarrow> bool" where
  "dfs_inv g visited rec_stack path \<longleftrightarrow>
     set path = rec_stack \<and> distinct path \<and> rec_stack \<subseteq> visited \<and>
     visited \<subseteq> set (graph_nodes g) \<and> walk g path \<and> closed_acyclic g (visited - rec_stack)"

text \<open>
  A cycle found while the search stands on an extension \<open>q\<close> of \<open>path\<close>: the last node
  of \<open>q\<close> has an edge back to the node at position \<open>i\<close> of \<open>q\<close>, and the result is \<open>q\<close>
  from that position on, closed by the node again.
\<close>

definition found_on :: "graph \<Rightarrow> string list \<Rightarrow> string list \<Rightarrow> bool" where
  "found_on g path c \<longleftrightarrow>
     (\<exists>q i. prefix path q \<and> walk g q \<and> distinct q \<and> set q \<subseteq> set (graph_nodes g) \<and>
            i < length q \<and> (last q, q ! i) \<in> edges g \<and> c = drop i q @ [q ! i])"

text \<open>
  What a call of \<^verbatim>\<open>dfs\<close> on \<open>node\<close>, made with the path \<open>p @ [node]\<close>, guarantees. The only
  exception is \<^verbatim>\<open>RecursionError\<close>, and only when fewer frames are left than there are
  unvisited nodes.
\<close>

definition dfs_post ::
  "graph \<Rightarrow> nat \<Rightarrow> string \<Rightarrow> string set \<Rightarrow> string set \<Rightarrow> string list
     \<Rightarrow> error + (string list option \<times> string set \<times> string set) \<Rightarrow> bool" where
  "dfs_post g depth node visited rec_stack p res \<longleftrightarrow>
     (case res of
        Inl e \<Rightarrow> e = RecursionError \<and> depth < card (set (graph_nodes g) - visited)
      | Inr (None, visited', rec_stack') \<Rightarrow>
          rec_stack' = rec_stack \<and> insert node visited \<subseteq> visited' \<and> dfs_inv g visited' rec_stack p
      | Inr (Some c, visited', rec_stack') \<Rightarrow> found_on g (p @ [node]) c)"

definition dfs_for_post ::
  "graph \<Rightarrow> nat \<Rightarrow> string \<Rightarrow> string set \<Rightarrow> string set \<Rightarrow> string list
     \<Rightarrow> error + (string list option \<times> string set \<times> string set) \<Rightarrow> bool" where
  "dfs_for_post g depth node visited rec_stack path res \<longleftrightarrow>
     (case res of
        Inl e \<Rightarrow> e = RecursionError \<and> depth < card (set (graph_nodes g) - visited)
      | Inr (None, visited', rec_stack') \<Rightarrow>
          rec_stack' = rec_stack \<and> visited \<subseteq> visited' \<and> dfs_inv g visited' rec_stack path \<and>
          (\<forall>v. (node, v) \<in> edges g \<longrightarrow> v \<in> visited' - rec_stack)
      | Inr (Some c, visited', rec_stack') \<Rightarrow> found_on g path c)"

definition dfs_spec :: "nat \<Rightarrow> graph \<Rightarrow> bool" where
  "dfs_spec depth g \<longleftrightarrow>
     (\<forall>node visited rec_stack p.
        dfs_inv g visited rec_stack p \<and> node \<notin> visited \<and> node \<in> set (graph_nodes g) \<and>
        (p \<noteq> [] \<longrightarrow> (last p, node) \<in> edges g)
        \<longrightarrow> dfs_post g depth node visited rec_stack p (dfs depth g node visited rec_stack (p @ [node])))"

text \<open>
  What the loop over the keys guarantees: a cycle it returns was found by the search
  started at a key \<open>k\<close>, and no key before \<open>k\<close> reaches any cycle.
\<close>

definition detect_post :: "graph \<Rightarrow> nat \<Rightarrow> string list \<Rightarrow> string set
     \<Rightarrow> error + (string list option \<times> string set) \<Rightarrow> bool" where
  "detect_post g depth ks visited res \<longleftrightarrow>
     (case res of
        Inl e \<Rightarrow> e = RecursionError \<and> depth < card (set (graph_nodes g) - visited)
      | Inr (None, visited') \<Rightarrow> visited \<union> set ks \<subseteq> visited' \<and> dfs_inv g visited' {} []
      | Inr (Some c, visited') \<Rightarrow>
          (\<exists>ks1 k ks2. ks = ks1 @ k # ks2 \<and> (\<forall>k'\<in>set ks1. \<not> reaches_cycle g k') \<and> found_on g [k] c))"

subsection \<open>Manifests\<close>

text \<open>The manifests that parsed, in the order of the files, and those that declare a name.\<close>

fun parsed :: "asmdef option list \<Rightarrow> asmdef list" where
  "parsed [] = []"
| "parsed (None # rest) = parsed rest"
| "parsed (Some asmdef # rest) = asmdef # parsed rest"

definition declared :: "asmdef option list \<Rightarrow> string \<Rightarrow> asmdef list" where
  "declared asmdef_files name = filter (\<lambda>asmdef. asmdef_name asmdef = name) (parsed asmdef_files)"

subsection \<open>Isolation\<close>

text \<open>
  The edges from a shared assembly to a feature assembly, as a set of pairs of names: the
  source contains \<^verbatim>\<open>Shared\<close>, the target contains neither \<^verbatim>\<open>Shared\<close> nor \<^verbatim>\<open>Unity.\<close>
\<close>

definition shared_feature_edges :: "graph \<Rightarrow> (string \<times> string) set" where
  "shared_feature_edges g =
     {(s, t). (s, t) \<in> edges g \<and> str_contains ''Shared'' s \<and>
              \<not> str_contains ''Shared'' t \<and> \<not> str_contains ''Unity.'' t}"

subsection \<open>The start order that the specification names\<close>

text \<open>
  The specification has the detector start its searches from the module names in
  ascending order. This is \<open>detect_circular_dependencies\<close> with that order in place of
  the order of the keys, for comparison with the source.
\<close>

definition detect_circular_dependencies_sorted :: "nat \<Rightarrow> graph \<Rightarrow> error + string list option" where
  "detect_circular_dependencies_sorted depth graph =
     (case detect_for depth graph (sort (map fst graph)) {} of
        Inl e \<Rightarrow> Inl e
      | Inr (cycle, visited) \<Rightarrow> Inr cycle)"

section \<open>Properties of the model\<close>

subsection \<open>Edges, nodes and positions\<close>

lemma graph_get_key: "v \<in> set (graph_get g u) \<Longrightarrow> u \<in> fst ` set g"
proof -
  assume "v \<in> set (graph_get g u)"
  then obtain ns where "map_of g u = Some ns"
    by (cases "map_of g u") (auto simp: graph_get_def)
  then have "(u, ns) \<in> set g" by (rule map_of_SomeD)
  then show ?thesis by force
qed

lemma edges_nodes: "(u, v) \<in> edges g \<Longrightarrow> u \<in> set (graph_nodes g) \<and> v \<in> set (graph_nodes g)"
proof -
  assume e: "(u, v) \<in> edges g"
  then have v: "v \<in> set (graph_get g u)" by (simp add: edges_def)
  then have "u \<in> fst ` set g" by (rule graph_get_key)
  then obtain ns where "(u, ns) \<in> set g" by auto
  with v show ?thesis by (force simp: graph_nodes_def)
qed

lemma list_index_mem:
  "x \<in> set xs \<Longrightarrow> \<exists>i. list_index xs x = Inr i \<and> i < length xs \<and> xs ! i = x"
  by (induction xs) auto

subsection \<open>The loop of the search\<close>

lemma found_on_nonempty: "found_on g path c \<Longrightarrow> c \<noteq> []"
  by (auto simp: found_on_def)

lemma found_on_prefix: "found_on g (path @ xs) c \<Longrightarrow> found_on g path c"
proof -
  assume "found_on g (path @ xs) c"
  then obtain q i where q: "prefix (path @ xs) q" "walk g q" "distinct q"
      "set q \<subseteq> set (graph_nodes g)" "i < length q" "(last q, q ! i) \<in> edges g"
      "c = drop i q @ [q ! i]"
    unfolding found_on_def by blast
  from q(1) have "prefix path q" by (rule append_prefixD)
  with q(2-) show ?thesis unfolding found_on_def by blast
qed

lemma card_diff_mono:
  "visited \<subseteq> visited' \<Longrightarrow> card (set xs - visited') \<le> card (set xs - visited)"
  by (rule card_mono) auto

lemma dfs_for_post_mono:
  assumes "visited \<subseteq> visited'" "dfs_for_post g depth node visited' rec_stack path res"
  shows "dfs_for_post g depth node visited rec_stack path res"
proof (cases res)
  case (Inl e)
  with assms card_diff_mono [OF assms(1), of "graph_nodes g"] show ?thesis
    by (auto simp: dfs_for_post_def)
next
  case (Inr r)
  with assms show ?thesis
    by (cases r) (auto simp: dfs_for_post_def split: option.splits)
qed

lemma dfs_for_correct:
  assumes spec: "dfs_spec depth g"
  shows "dfs_inv g visited rec_stack path \<Longrightarrow> path \<noteq> [] \<Longrightarrow> last path = node \<Longrightarrow>
     (\<forall>v. (node, v) \<in> edges g \<longrightarrow> v \<in> set ns \<or> v \<in> visited - rec_stack) \<Longrightarrow>
     (\<forall>v\<in>set ns. (node, v) \<in> edges g) \<Longrightarrow>
     dfs_for_post g depth node visited rec_stack path (dfs_for depth g ns node visited rec_stack path)"
proof (induction ns arbitrary: visited)
  case Nil
  then show ?case by (auto simp: dfs_for_post_def)
next
  case (Cons neighbor rest)
  have inv: "dfs_inv g visited rec_stack path" by fact
  have edge: "(node, neighbor) \<in> edges g" using Cons.prems(5) by simp
  have rest_edges: "\<forall>v\<in>set rest. (node, v) \<in> edges g" using Cons.prems(5) by simp
  show ?case
  proof (cases "neighbor \<in> visited")
    case False
    have "neighbor \<in> set (graph_nodes g)" using edge edges_nodes by blast
    with spec inv False edge Cons.prems(2,3)
    have post: "dfs_post g depth neighbor visited rec_stack path
                  (dfs depth g neighbor visited rec_stack (path @ [neighbor]))"
      unfolding dfs_spec_def by blast
    show ?thesis
    proof (cases "dfs depth g neighbor visited rec_stack (path @ [neighbor])")
      case (Inl e)
      with post False show ?thesis by (simp add: dfs_post_def dfs_for_post_def)
    next
      case (Inr r)
      obtain cycle visited' rec_stack' where r: "r = (cycle, visited', rec_stack')"
        by (cases r) auto
      show ?thesis
      proof (cases cycle)
        case None
        from post Inr r None have rs: "rec_stack' = rec_stack"
          and sub: "insert neighbor visited \<subseteq> visited'"
          and inv': "dfs_inv g visited' rec_stack path"
          by (simp_all add: dfs_post_def)
        have nrs: "neighbor \<notin> rec_stack" using inv False by (auto simp: dfs_inv_def)
        have "\<forall>v. (node, v) \<in> edges g \<longrightarrow> v \<in> set rest \<or> v \<in> visited' - rec_stack"
          using Cons.prems(4) sub nrs by auto
        with Cons.IH [OF inv' Cons.prems(2,3) _ rest_edges]
        have "dfs_for_post g depth node visited' rec_stack path
                (dfs_for depth g rest node visited' rec_stack path)" by blast
        then have "dfs_for_post g depth node visited rec_stack path
                (dfs_for depth g rest node visited' rec_stack path)"
          using sub by (intro dfs_for_post_mono [of visited visited']) auto
        with False Inr r None rs show ?thesis by simp
      next
        case (Some c)
        with post Inr r have f: "found_on g (path @ [neighbor]) c" by (simp add: dfs_post_def)
        then have "c \<noteq> []" by (rule found_on_nonempty)
        with False Inr r Some f show ?thesis
          by (simp add: dfs_for_post_def found_on_prefix)
      qed
    qed
  next
    case True
    show ?thesis
    proof (cases "neighbor \<in> rec_stack")
      case in_stack: True
      then have "neighbor \<in> set path" using inv by (simp add: dfs_inv_def)
      then obtain i where i: "list_index path neighbor = Inr i" "i < length path" "path ! i = neighbor"
        using list_index_mem by blast
      have "found_on g path (drop i path @ [neighbor])"
        unfolding found_on_def
        using inv i edge Cons.prems(3)
        by (intro exI [of _ path] exI [of _ i]) (auto simp: dfs_inv_def)
      with True in_stack i show ?thesis by (simp add: dfs_for_post_def)
    next
      case False
      have "\<forall>v. (node, v) \<in> edges g \<longrightarrow> v \<in> set rest \<or> v \<in> visited - rec_stack"
        using Cons.prems(4) True False by auto
      with Cons.IH [OF inv Cons.prems(2,3) _ rest_edges]
      have "dfs_for_post g depth node visited rec_stack path
                (dfs_for depth g rest node visited rec_stack path)" by blast
      with True False show ?thesis by simp
    qed
  qed
qed

subsection \<open>The body of the search\<close>

lemma closed_rtrancl:
  assumes "closed_acyclic g B" "(u, v) \<in> (edges g)\<^sup>*" "u \<in> B"
  shows "v \<in> B"
  using assms(2,3,1) by (induction rule: rtrancl_induct) (auto simp: closed_acyclic_def)

lemma closed_acyclic_insert:
  assumes ca: "closed_acyclic g B"
    and succs: "\<forall>v. (node, v) \<in> edges g \<longrightarrow> v \<in> B"
    and notin: "node \<notin> B"
  shows "closed_acyclic g (insert node B)"
proof -
  have "(node, node) \<notin> (edges g)\<^sup>+"
  proof
    assume "(node, node) \<in> (edges g)\<^sup>+"
    then obtain z where z: "(node, z) \<in> edges g" "(z, node) \<in> (edges g)\<^sup>*"
      by (meson tranclD)
    from z(1) succs have "z \<in> B" by blast
    with ca z(2) have "node \<in> B" by (blast intro: closed_rtrancl)
    with notin show False by contradiction
  qed
  with ca succs show ?thesis by (auto simp: closed_acyclic_def)
qed

lemma walk_snoc: "walk g (p @ [node]) \<longleftrightarrow> walk g p \<and> (p \<noteq> [] \<longrightarrow> (last p, node) \<in> edges g)"
  by (auto simp: walk_def successively_append_iff edges_def)

lemma dfs_spec_all: "dfs_spec depth g"
proof (induction depth)
  case 0
  show ?case
    unfolding dfs_spec_def dfs_post_def
  proof (intro allI impI)
    fix node visited rec_stack p
    assume "dfs_inv g visited rec_stack p \<and> node \<notin> visited \<and> node \<in> set (graph_nodes g) \<and>
        (p \<noteq> [] \<longrightarrow> (last p, node) \<in> edges g)"
    then have "node \<in> set (graph_nodes g) - visited" by simp
    then have "0 < card (set (graph_nodes g) - visited)"
      by (metis List.finite_set card_gt_0_iff empty_iff finite_Diff)
    then show "case dfs 0 g node visited rec_stack (p @ [node]) of
        Inl e \<Rightarrow> e = RecursionError \<and> 0 < card (set (graph_nodes g) - visited)
      | Inr (None, visited', rec_stack') \<Rightarrow>
          rec_stack' = rec_stack \<and> insert node visited \<subseteq> visited' \<and> dfs_inv g visited' rec_stack p
      | Inr (Some c, visited', rec_stack') \<Rightarrow> found_on g (p @ [node]) c"
      by simp
  qed
next
  case (Suc d)
  show ?case
    unfolding dfs_spec_def
  proof (intro allI impI)
    fix node visited rec_stack p
    assume pre: "dfs_inv g visited rec_stack p \<and> node \<notin> visited \<and> node \<in> set (graph_nodes g) \<and>
        (p \<noteq> [] \<longrightarrow> (last p, node) \<in> edges g)"
    then have inv: "dfs_inv g visited rec_stack p" and fresh: "node \<notin> visited"
      and known: "node \<in> set (graph_nodes g)"
      and edge: "p \<noteq> [] \<longrightarrow> (last p, node) \<in> edges g" by simp_all
    have nrs: "node \<notin> rec_stack" using inv fresh by (auto simp: dfs_inv_def)
    have same: "insert node visited - insert node rec_stack = visited - rec_stack"
      using fresh by auto
    have inv1: "dfs_inv g (insert node visited) (insert node rec_stack) (p @ [node])"
      using inv fresh known edge nrs unfolding dfs_inv_def same walk_snoc by auto
    have "dfs_for_post g d node (insert node visited) (insert node rec_stack) (p @ [node])
            (dfs_for d g (graph_get g node) node (insert node visited) (insert node rec_stack) (p @ [node]))"
      by (rule dfs_for_correct [OF Suc.IH inv1]) (auto simp: edges_def)
    then have post: "dfs_for_post g d node (insert node visited) (insert node rec_stack) (p @ [node])
            (dfs_for d g (graph_get g node) node (insert node visited) (insert node rec_stack) (p @ [node]))" .
    show "dfs_post g (Suc d) node visited rec_stack p (dfs (Suc d) g node visited rec_stack (p @ [node]))"
    proof (cases "dfs_for d g (graph_get g node) node (insert node visited) (insert node rec_stack) (p @ [node])")
      case (Inl e)
      with post have e: "e = RecursionError"
        and d: "d < card (set (graph_nodes g) - insert node visited)"
        by (simp_all add: dfs_for_post_def)
      have "card (set (graph_nodes g) - insert node visited) = card (set (graph_nodes g) - visited) - 1"
        using known fresh by (simp add: card_Diff_insert)
      with d have "Suc d < card (set (graph_nodes g) - visited)" by simp
      with Inl e show ?thesis by (simp add: dfs_post_def)
    next
      case (Inr r)
      obtain cycle visited' rec_stack' where r: "r = (cycle, visited', rec_stack')"
        by (cases r) auto
      show ?thesis
      proof (cases cycle)
        case None
        from post Inr r None have rs: "rec_stack' = insert node rec_stack"
          and sub: "insert node visited \<subseteq> visited'"
          and inv': "dfs_inv g visited' (insert node rec_stack) (p @ [node])"
          and succs: "\<forall>v. (node, v) \<in> edges g \<longrightarrow> v \<in> visited' - insert node rec_stack"
          by (simp_all add: dfs_for_post_def)
        have eq: "visited' - rec_stack = insert node (visited' - insert node rec_stack)"
          using sub nrs by auto
        have "closed_acyclic g (insert node (visited' - insert node rec_stack))"
          using inv' succs by (intro closed_acyclic_insert) (auto simp: dfs_inv_def)
        then have "dfs_inv g visited' rec_stack p"
          using inv inv' sub unfolding dfs_inv_def eq by auto
        moreover have "insert node rec_stack - {node} = rec_stack" using nrs by auto
        ultimately show ?thesis using Inr r None rs sub by (simp add: dfs_post_def)
      next
        case (Some c)
        with post Inr r show ?thesis by (simp add: dfs_post_def dfs_for_post_def)
      qed
    qed
  qed
qed

lemma dfs_correct:
  assumes "dfs_inv g visited rec_stack p" "node \<notin> visited" "node \<in> set (graph_nodes g)"
    "p \<noteq> [] \<longrightarrow> (last p, node) \<in> edges g"
  shows "dfs_post g depth node visited rec_stack p (dfs depth g node visited rec_stack (p @ [node]))"
  using dfs_spec_all [of depth g] assms unfolding dfs_spec_def by blast

subsection \<open>The loop over the keys\<close>

lemma closed_acyclic_no_cycle: "closed_acyclic g B \<Longrightarrow> k \<in> B \<Longrightarrow> \<not> reaches_cycle g k"
proof
  assume ca: "closed_acyclic g B" and k: "k \<in> B" and "reaches_cycle g k"
  then obtain v where v: "(k, v) \<in> (edges g)\<^sup>*" "(v, v) \<in> (edges g)\<^sup>+"
    unfolding reaches_cycle_def by blast
  from ca v(1) k have "v \<in> B" by (rule closed_rtrancl)
  with ca v(2) show False by (simp add: closed_acyclic_def)
qed

lemma detect_post_skip:
  assumes "detect_post g depth ks visited' res" "visited \<subseteq> visited'" "\<not> reaches_cycle g k" "k \<in> visited'"
  shows "detect_post g depth (k # ks) visited res"
proof (cases res)
  case (Inl e)
  with assms card_diff_mono [OF assms(2), of "graph_nodes g"] show ?thesis
    by (auto simp: detect_post_def)
next
  case (Inr r)
  obtain cycle vis where r: "r = (cycle, vis)" by (cases r) auto
  show ?thesis
  proof (cases cycle)
    case None
    with assms Inr r show ?thesis by (auto simp: detect_post_def)
  next
    case (Some c)
    with assms(1) Inr r obtain ks1 k0 ks2 where
      k: "ks = ks1 @ k0 # ks2" "\<forall>k'\<in>set ks1. \<not> reaches_cycle g k'" "found_on g [k0] c"
      by (auto simp: detect_post_def)
    have "k # ks = (k # ks1) @ k0 # ks2 \<and> (\<forall>k'\<in>set (k # ks1). \<not> reaches_cycle g k') \<and> found_on g [k0] c"
      using k assms(3) by simp
    then have "\<exists>ks1' k' ks2'. k # ks = ks1' @ k' # ks2' \<and> (\<forall>k'\<in>set ks1'. \<not> reaches_cycle g k') \<and> found_on g [k'] c"
      by blast
    then show ?thesis unfolding detect_post_def Inr r Some by simp
  qed
qed

lemma detect_for_correct:
  "dfs_inv g visited {} [] \<Longrightarrow> set ks \<subseteq> set (graph_nodes g) \<Longrightarrow>
   detect_post g depth ks visited (detect_for depth g ks visited)"
proof (induction ks arbitrary: visited)
  case Nil
  then show ?case by (simp add: detect_post_def)
next
  case (Cons k rest)
  have inv: "dfs_inv g visited {} []" by fact
  have rest: "set rest \<subseteq> set (graph_nodes g)" and known: "k \<in> set (graph_nodes g)"
    using Cons.prems(2) by simp_all
  show ?case
  proof (cases "k \<in> visited")
    case True
    have "\<not> reaches_cycle g k"
      using inv True by (intro closed_acyclic_no_cycle [of g visited]) (auto simp: dfs_inv_def)
    with Cons.IH [OF inv rest] True have "detect_post g depth (k # rest) visited (detect_for depth g rest visited)"
      by (intro detect_post_skip [of g depth rest visited]) auto
    with True show ?thesis by simp
  next
    case False
    have post: "dfs_post g depth k visited {} [] (dfs depth g k visited {} ([] @ [k]))"
      using inv False known by (intro dfs_correct) auto
    show ?thesis
    proof (cases "dfs depth g k visited {} [k]")
      case (Inl e)
      with post False show ?thesis by (simp add: dfs_post_def detect_post_def)
    next
      case (Inr r)
      obtain cycle visited' rec_stack' where r: "r = (cycle, visited', rec_stack')"
        by (cases r) auto
      show ?thesis
      proof (cases cycle)
        case None
        from post Inr r None have sub: "insert k visited \<subseteq> visited'"
          and inv': "dfs_inv g visited' {} []"
          by (simp_all add: dfs_post_def)
        have "\<not> reaches_cycle g k"
          using inv' sub by (intro closed_acyclic_no_cycle [of g visited']) (auto simp: dfs_inv_def)
        with Cons.IH [OF inv' rest] sub
        have "detect_post g depth (k # rest) visited (detect_for depth g rest visited')"
          by (intro detect_post_skip [of g depth rest visited']) auto
        with False Inr r None show ?thesis by simp
      next
        case (Some c)
        with post Inr r have f: "found_on g [k] c" by (simp add: dfs_post_def)
        then have "c \<noteq> []" by (rule found_on_nonempty)
        moreover have "\<exists>ks1 k0 ks2. k # rest = ks1 @ k0 # ks2 \<and> (\<forall>k'\<in>set ks1. \<not> reaches_cycle g k') \<and> found_on g [k0] c"
          using f by (intro exI [of _ "[]"] exI [of _ k] exI [of _ rest]) simp
        ultimately show ?thesis using False Inr r Some
          by (simp add: detect_post_def del: append_Cons)
      qed
    qed
  qed
qed

subsection \<open>Walks and the cycle that is returned\<close>

lemma walk_drop: "walk g q \<Longrightarrow> walk g (drop i q)"
proof -
  assume "walk g q"
  then have "walk g (take i q @ drop i q)" by simp
  then show ?thesis unfolding walk_def successively_append_iff by blast
qed

lemma walk_reach: "walk g (x # p) \<Longrightarrow> y \<in> set (x # p) \<Longrightarrow> (x, y) \<in> (edges g)\<^sup>*"
proof (induction p arbitrary: x)
  case Nil
  then show ?case by simp
next
  case (Cons z p)
  from Cons.prems(1) have xz: "(x, z) \<in> edges g" and w: "walk g (z # p)"
    by (simp_all add: walk_def edges_def)
  show ?case
  proof (cases "y = x")
    case True
    then show ?thesis by simp
  next
    case False
    with Cons.prems(2) have "y \<in> set (z # p)" by simp
    with Cons.IH [OF w] have "(z, y) \<in> (edges g)\<^sup>*" by blast
    with xz show ?thesis by (rule converse_rtrancl_into_rtrancl)
  qed
qed

lemma walk_hd_reach: "walk g p \<Longrightarrow> y \<in> set p \<Longrightarrow> (hd p, y) \<in> (edges g)\<^sup>*"
proof (cases p)
  case Nil
  assume "y \<in> set p"
  with Nil show ?thesis by simp
next
  case (Cons x xs)
  assume "walk g p" "y \<in> set p"
  with Cons have "(x, y) \<in> (edges g)\<^sup>*" by (intro walk_reach [of g x xs]) simp_all
  with Cons show ?thesis by simp
qed

lemma simple_cycle_closed:
  assumes "simple_cycle g c"
  shows "walk g (c @ [hd c])" and "(hd c, hd c) \<in> (edges g)\<^sup>+"
proof -
  from assms have ne: "c \<noteq> []" and w: "walk g c" and e: "(last c, hd c) \<in> edges g"
    by (simp_all add: simple_cycle_def edges_def)
  from w e ne show "walk g (c @ [hd c])" by (simp add: walk_snoc)
  from w ne have "(hd c, last c) \<in> (edges g)\<^sup>*" by (intro walk_hd_reach) simp_all
  then show "(hd c, hd c) \<in> (edges g)\<^sup>+" using e by (rule rtrancl_into_trancl1)
qed

lemma found_on_cycle:
  assumes "found_on g path c"
  shows "\<exists>c0. c = c0 @ [hd c0] \<and> simple_cycle g c0 \<and> set c0 \<subseteq> set (graph_nodes g) \<and>
           (path \<noteq> [] \<longrightarrow> (\<forall>x\<in>set c0. (hd path, x) \<in> (edges g)\<^sup>*))"
proof -
  from assms obtain q i where q: "prefix path q" "walk g q" "distinct q"
      "set q \<subseteq> set (graph_nodes g)" "i < length q" "(last q, q ! i) \<in> edges g"
      "c = drop i q @ [q ! i]"
    unfolding found_on_def by blast
  let ?c0 = "drop i q"
  have ne: "?c0 \<noteq> []" using q(5) by simp
  have hd: "hd ?c0 = q ! i" using q(5) by (simp add: hd_drop_conv_nth)
  have last: "last ?c0 = last q" using q(5) by simp
  have sc: "simple_cycle g ?c0"
    unfolding simple_cycle_def using ne q(2,3,6) hd last
    by (auto simp: walk_drop edges_def)
  have sub: "set ?c0 \<subseteq> set q" by (rule set_drop_subset)
  have reach: "path \<noteq> [] \<longrightarrow> (\<forall>x\<in>set ?c0. (hd path, x) \<in> (edges g)\<^sup>*)"
  proof (intro impI ballI)
    fix x assume p: "path \<noteq> []" and x: "x \<in> set ?c0"
    from q(1) p have "hd q = hd path" by (auto simp: prefix_def)
    moreover from x sub have "x \<in> set q" by blast
    ultimately show "(hd path, x) \<in> (edges g)\<^sup>*" using walk_hd_reach [OF q(2)] by metis
  qed
  from q(7) hd sc sub q(4) reach show ?thesis by (intro exI [of _ ?c0]) auto
qed

subsection \<open>The whole detector\<close>

lemma dfs_inv_init: "dfs_inv g {} {} []"
  by (simp add: dfs_inv_def walk_def closed_acyclic_def)

lemma keys_nodes: "set (map fst g) \<subseteq> set (graph_nodes g)"
  by (auto simp: graph_nodes_def)

lemma detect_post_top: "detect_post g depth (map fst g) {} (detect_for depth g (map fst g) {})"
  by (rule detect_for_correct [OF dfs_inv_init keys_nodes])

lemma card_nodes: "card (set (graph_nodes g)) = length (graph_nodes g)"
  unfolding graph_nodes_def by (rule distinct_card) simp

lemma detect_for_no_error:
  assumes "length (graph_nodes g) \<le> depth"
  shows "\<exists>cycle visited. detect_for depth g (map fst g) {} = Inr (cycle, visited)"
proof (cases "detect_for depth g (map fst g) {}")
  case (Inl e)
  with detect_post_top [of g depth] have "depth < card (set (graph_nodes g))"
    by (simp add: detect_post_def)
  with assms show ?thesis by (simp add: card_nodes)
next
  case (Inr r)
  then show ?thesis by (cases r) auto
qed

lemma detect_for_error:
  assumes "detect_for depth g (map fst g) {} = Inl e"
  shows "e = RecursionError \<and> depth < length (graph_nodes g)"
  using detect_post_top [of g depth] assms by (simp add: detect_post_def card_nodes)

lemma closed_all_nodes:
  assumes ca: "closed_acyclic g B" and keys: "set (map fst g) \<subseteq> B"
  shows "set (graph_nodes g) \<subseteq> B" and "acyclic (edges g)"
proof -
  show "set (graph_nodes g) \<subseteq> B"
  proof
    fix x assume "x \<in> set (graph_nodes g)"
    then consider "x \<in> set (map fst g)" | u where "u \<in> set (map fst g)" "x \<in> set (graph_get g u)"
      by (auto simp: graph_nodes_def) force
    then show "x \<in> B"
    proof cases
      case 1
      with keys show ?thesis by blast
    next
      case 2
      then have "u \<in> B" "(u, x) \<in> edges g" using keys by (auto simp: edges_def)
      with ca show ?thesis by (auto simp: closed_acyclic_def)
    qed
  qed
  show "acyclic (edges g)"
  proof (rule acyclicI, intro allI notI)
    fix x assume c: "(x, x) \<in> (edges g)\<^sup>+"
    then obtain z where "(x, z) \<in> edges g" by (meson tranclD)
    then have "x \<in> fst ` set g" by (auto simp: edges_def dest: graph_get_key)
    with keys have "x \<in> B" by auto
    with ca c show False by (simp add: closed_acyclic_def)
  qed
qed

lemma detect_for_None:
  assumes "detect_for depth g (map fst g) {} = Inr (None, visited)"
  shows "visited = set (graph_nodes g)" and "acyclic (edges g)"
proof -
  from detect_post_top [of g depth] assms
  have keys: "set (map fst g) \<subseteq> visited" and inv: "dfs_inv g visited {} []"
    by (simp_all add: detect_post_def)
  from inv have ca: "closed_acyclic g visited" and sub: "visited \<subseteq> set (graph_nodes g)"
    by (simp_all add: dfs_inv_def)
  from closed_all_nodes [OF ca keys] sub show "visited = set (graph_nodes g)" "acyclic (edges g)"
    by auto
qed

lemma detect_for_Some:
  assumes "detect_for depth g (map fst g) {} = Inr (Some c, visited)"
  shows "\<exists>ks1 k ks2 c0. map fst g = ks1 @ k # ks2 \<and> (\<forall>k'\<in>set ks1. \<not> reaches_cycle g k') \<and>
           c = c0 @ [hd c0] \<and> simple_cycle g c0 \<and> set c0 \<subseteq> set (graph_nodes g) \<and>
           (\<forall>x\<in>set c0. (k, x) \<in> (edges g)\<^sup>*)"
proof -
  from detect_post_top [of g depth] assms obtain ks1 k ks2 where
    k: "map fst g = ks1 @ k # ks2" "\<forall>k'\<in>set ks1. \<not> reaches_cycle g k'" "found_on g [k] c"
    by (auto simp: detect_post_def)
  from found_on_cycle [OF k(3)] obtain c0 where
    "c = c0 @ [hd c0]" "simple_cycle g c0" "set c0 \<subseteq> set (graph_nodes g)"
    "\<forall>x\<in>set c0. (k, x) \<in> (edges g)\<^sup>*" by auto
  with k(1,2) show ?thesis by blast
qed

subsection \<open>The graph builder\<close>

lemma parsed_append: "parsed (xs @ ys) = parsed xs @ parsed ys"
  by (induction xs rule: parsed.induct) auto

lemma collect_lookup:
  "map_of (collect_assemblies asmdef_files assemblies) name =
     (if declared asmdef_files name = [] then map_of assemblies name
      else Some (last (declared asmdef_files name)))"
proof (induction asmdef_files assemblies rule: collect_assemblies.induct)
  case (1 assemblies)
  then show ?case by (simp add: declared_def)
next
  case (2 rest assemblies)
  then show ?case by (simp add: declared_def)
next
  case (3 asmdef rest assemblies)
  then show ?case by (simp add: declared_def update_conv')
qed

lemma collect_distinct:
  "distinct (map fst assemblies) \<Longrightarrow> distinct (map fst (collect_assemblies asmdef_files assemblies))"
  by (induction asmdef_files assemblies rule: collect_assemblies.induct) (auto simp: distinct_update)

lemma collect_keys:
  "fst ` set (collect_assemblies asmdef_files assemblies) =
     fst ` set assemblies \<union> asmdef_name ` set (parsed asmdef_files)"
  by (induction asmdef_files assemblies rule: collect_assemblies.induct) (auto simp: dom_update)

lemma graph_get_append:
  "graph_get (graph_append graph name ref) n =
     (if n = name then graph_get graph name @ [ref] else graph_get graph n)"
  by (auto simp: graph_get_def graph_append_def update_conv' map_add_def split: option.splits)

lemma graph_append_keys: "fst ` set (graph_append graph name ref) = insert name (fst ` set graph)"
  by (auto simp: graph_append_def dom_update split: option.splits dest: map_of_SomeD intro: rev_image_eqI)

lemma graph_get_add_references:
  "graph_get (add_references assemblies name refs graph) n =
     (if n = name then graph_get graph name @ filter (\<lambda>ref. ref \<in> set (map fst assemblies)) refs
      else graph_get graph n)"
  by (induction refs arbitrary: graph) (auto simp: graph_get_append)

lemma add_references_keys:
  "fst ` set (add_references assemblies name refs graph) \<subseteq> insert name (fst ` set graph)"
proof (induction refs arbitrary: graph)
  case Nil
  then show ?case by auto
next
  case (Cons ref rest)
  show ?case
  proof (cases "ref \<in> set (map fst assemblies)")
    case True
    with Cons [of "graph_append graph name ref"] show ?thesis
      by (simp add: graph_append_keys)
  next
    case False
    with Cons [of graph] show ?thesis by simp
  qed
qed

lemma graph_get_add_assemblies:
  "distinct (map fst items) \<Longrightarrow>
   graph_get (add_assemblies assemblies items graph) n =
     graph_get graph n @
     (case map_of items n of
        None \<Rightarrow> []
      | Some asmdef \<Rightarrow> filter (\<lambda>ref. ref \<in> set (map fst assemblies)) (asmdef_references asmdef))"
proof (induction items arbitrary: graph)
  case Nil
  then show ?case by simp
next
  case (Cons item rest)
  obtain name asmdef where item: "item = (name, asmdef)" by (cases item) auto
  from Cons.prems item have d: "distinct (map fst rest)" and fresh: "name \<notin> fst ` set rest"
    by auto
  from fresh have none: "map_of rest name = None" by (simp add: map_of_eq_None_iff)
  show ?case
    using Cons.IH [OF d, of "add_references assemblies name (asmdef_references asmdef) graph"] none
    by (simp add: item graph_get_add_references)
qed

lemma add_assemblies_keys:
  "fst ` set (add_assemblies assemblies items graph) \<subseteq> fst ` set graph \<union> fst ` set items"
proof (induction items arbitrary: graph)
  case Nil
  then show ?case by simp
next
  case (Cons item rest)
  obtain name asmdef where item: "item = (name, asmdef)" by (cases item) auto
  from Cons.IH [of "add_references assemblies name (asmdef_references asmdef) graph"]
    add_references_keys [of assemblies name "asmdef_references asmdef" graph]
  show ?case unfolding item by auto
qed

lemma build_assemblies:
  assumes "build_dependency_graph asmdef_files = (graph, assemblies)"
  shows "distinct (map fst assemblies)"
    and "map_of assemblies name =
          (if declared asmdef_files name = [] then None else Some (last (declared asmdef_files name)))"
    and "fst ` set assemblies = asmdef_name ` set (parsed asmdef_files)"
  using assms collect_distinct [of "[]" asmdef_files] collect_lookup [of asmdef_files "[]" name]
    collect_keys [of asmdef_files "[]"]
  by (auto simp: build_dependency_graph_def Let_def)

lemma build_graph_get:
  assumes "build_dependency_graph asmdef_files = (graph, assemblies)"
  shows "graph_get graph name =
     (case map_of assemblies name of
        None \<Rightarrow> []
      | Some asmdef \<Rightarrow> filter (\<lambda>ref. ref \<in> set (map fst assemblies)) (asmdef_references asmdef))"
proof -
  from assms have g: "graph = add_assemblies assemblies assemblies []"
    by (auto simp: build_dependency_graph_def Let_def)
  have "graph_get [] name = []" by (simp add: graph_get_def)
  with graph_get_add_assemblies [OF build_assemblies(1) [OF assms], of assemblies "[]" name]
  show ?thesis unfolding g by simp
qed

lemma build_graph_keys:
  assumes "build_dependency_graph asmdef_files = (graph, assemblies)"
  shows "fst ` set graph \<subseteq> fst ` set assemblies"
proof -
  from assms have g: "graph = add_assemblies assemblies assemblies []"
    by (auto simp: build_dependency_graph_def Let_def)
  show ?thesis unfolding g using add_assemblies_keys [of assemblies assemblies "[]"] by simp
qed

lemma build_edges:
  assumes "build_dependency_graph asmdef_files = (graph, assemblies)"
    and "ref \<in> set (graph_get graph name)"
  shows "name \<in> fst ` set assemblies" and "ref \<in> fst ` set assemblies"
    and "\<exists>asmdef. map_of assemblies name = Some asmdef \<and> ref \<in> set (asmdef_references asmdef)"
proof -
  from assms(2) obtain asmdef where a: "map_of assemblies name = Some asmdef"
    and r: "ref \<in> set (filter (\<lambda>ref. ref \<in> set (map fst assemblies)) (asmdef_references asmdef))"
    unfolding build_graph_get [OF assms(1)] by (cases "map_of assemblies name") auto
  from a have "(name, asmdef) \<in> set assemblies" by (rule map_of_SomeD)
  then show "name \<in> fst ` set assemblies" by force
  from r show "ref \<in> fst ` set assemblies" by simp
  from a r show "\<exists>asmdef. map_of assemblies name = Some asmdef \<and> ref \<in> set (asmdef_references asmdef)"
    by simp
qed

lemma build_nodes:
  assumes "build_dependency_graph asmdef_files = (graph, assemblies)"
  shows "set (graph_nodes graph) \<subseteq> fst ` set assemblies"
proof
  fix x assume "x \<in> set (graph_nodes graph)"
  then consider "x \<in> fst ` set graph" | u where "x \<in> set (graph_get graph u)"
    by (auto simp: graph_nodes_def)
  then show "x \<in> fst ` set assemblies"
  proof cases
    case 1
    with build_graph_keys [OF assms] show ?thesis by blast
  next
    case 2
    with build_edges(2) [OF assms] show ?thesis by blast
  qed
qed

subsection \<open>The isolation check\<close>

lemma str_contains_iff: "str_contains sub s \<longleftrightarrow> (\<exists>pre suf. s = pre @ sub @ suf)"
proof (induction s)
  case Nil
  then show ?case by auto
next
  case (Cons c cs)
  show ?case
  proof
    assume "str_contains sub (c # cs)"
    then consider "prefix sub (c # cs)" | "str_contains sub cs" by auto
    then show "\<exists>pre suf. c # cs = pre @ sub @ suf"
    proof cases
      case 1
      then obtain suf where "c # cs = sub @ suf" by (auto simp: prefix_def)
      then have "c # cs = [] @ sub @ suf" by simp
      then show ?thesis by blast
    next
      case 2
      with Cons obtain pre suf where "cs = pre @ sub @ suf" by blast
      then have "c # cs = (c # pre) @ sub @ suf" by simp
      then show ?thesis by blast
    qed
  next
    assume "\<exists>pre suf. c # cs = pre @ sub @ suf"
    then obtain pre suf where e: "c # cs = pre @ sub @ suf" by blast
    show "str_contains sub (c # cs)"
    proof (cases pre)
      case Nil
      with e have "prefix sub (c # cs)" by (simp add: prefix_def)
      then show ?thesis by simp
    next
      case (Cons p ps)
      with e have "cs = ps @ sub @ suf" by simp
      with Cons.IH show ?thesis by auto
    qed
  qed
qed

lemma validate_set:
  "(s, t) \<in> set (validate_shared_namespace_isolation graph assemblies) \<longleftrightarrow>
     s \<in> fst ` set assemblies \<and> str_contains ''Shared'' s \<and> t \<in> set (graph_get graph s) \<and>
     t \<in> fst ` set assemblies \<and> \<not> str_contains ''Shared'' t \<and> \<not> str_contains ''Unity.'' t"
  by (auto simp: validate_shared_namespace_isolation_def shared_assemblies_def feature_assemblies_def)

lemma validate_length:
  "length (validate_shared_namespace_isolation graph assemblies) =
     sum_list (map (\<lambda>shared. length (filter (\<lambda>ref. ref \<in> set (feature_assemblies assemblies)) (graph_get graph shared)))
                (shared_assemblies assemblies))"
  by (simp add: validate_shared_namespace_isolation_def length_concat comp_def)

lemma distinct_pairs:
  "distinct ss \<Longrightarrow> (\<forall>s\<in>set ss. distinct (f s)) \<Longrightarrow>
   distinct (concat (map (\<lambda>s. map (\<lambda>r. (s, r)) (f s)) ss))"
  by (induction ss) (auto simp: distinct_map inj_on_def)

lemma validate_distinct:
  assumes "distinct (map fst assemblies)" "\<forall>s\<in>fst ` set assemblies. distinct (graph_get graph s)"
  shows "distinct (validate_shared_namespace_isolation graph assemblies)"
  unfolding validate_shared_namespace_isolation_def
  using assms by (intro distinct_pairs) (auto simp: shared_assemblies_def)

subsection \<open>Results of the detector\<close>

lemma detect_Inl:
  assumes "detect_circular_dependencies depth g = Inl e"
  shows "e = RecursionError \<and> depth < length (graph_nodes g)"
proof -
  from assms have "detect_for depth g (map fst g) {} = Inl e"
    by (auto simp: detect_circular_dependencies_def split: sum.splits)
  then show ?thesis by (rule detect_for_error)
qed

lemma detect_None:
  assumes "detect_circular_dependencies depth g = Inr None"
  shows "acyclic (edges g)" and "detect_for depth g (map fst g) {} = Inr (None, set (graph_nodes g))"
proof -
  from assms obtain visited where v: "detect_for depth g (map fst g) {} = Inr (None, visited)"
    by (auto simp: detect_circular_dependencies_def split: sum.splits)
  from detect_for_None [OF v] v
  show "acyclic (edges g)" "detect_for depth g (map fst g) {} = Inr (None, set (graph_nodes g))"
    by simp_all
qed

lemma detect_Some:
  assumes "detect_circular_dependencies depth g = Inr (Some c)"
  shows "\<exists>ks1 k ks2 c0. map fst g = ks1 @ k # ks2 \<and> (\<forall>k'\<in>set ks1. \<not> reaches_cycle g k') \<and>
           c = c0 @ [hd c0] \<and> simple_cycle g c0 \<and> set c0 \<subseteq> set (graph_nodes g) \<and>
           (\<forall>x\<in>set c0. (k, x) \<in> (edges g)\<^sup>*)"
proof -
  from assms obtain visited where "detect_for depth g (map fst g) {} = Inr (Some c, visited)"
    by (auto simp: detect_circular_dependencies_def split: sum.splits)
  then show ?thesis by (rule detect_for_Some)
qed

lemma detect_total:
  assumes "length (graph_nodes g) \<le> depth"
  shows "\<exists>cycle. detect_circular_dependencies depth g = Inr cycle"
  using detect_for_no_error [OF assms] by (auto simp: detect_circular_dependencies_def)

lemma simple_cycle_not_acyclic: "simple_cycle g c \<Longrightarrow> \<not> acyclic (edges g)"
  using simple_cycle_closed(2) [of g c] by (auto simp: acyclic_def)

lemma detect_Some_not_acyclic:
  "detect_circular_dependencies depth g = Inr (Some c) \<Longrightarrow> \<not> acyclic (edges g)"
  using detect_Some [of depth g c] simple_cycle_not_acyclic by blast

lemma detect_Some_nodes:
  assumes "detect_circular_dependencies depth g = Inr (Some c)"
  shows "c \<noteq> []" and "set c \<subseteq> set (graph_nodes g)"
proof -
  from detect_Some [OF assms] obtain c0 where
    c0: "c = c0 @ [hd c0]" "simple_cycle g c0" "set c0 \<subseteq> set (graph_nodes g)" by blast
  from c0(1) show "c \<noteq> []" by simp
  from c0(2) have "hd c0 \<in> set c0" by (simp add: simple_cycle_def)
  with c0(3) have "set (c0 @ [hd c0]) \<subseteq> set (graph_nodes g)" by auto
  with c0(1) show "set c \<subseteq> set (graph_nodes g)" by simp
qed

subsection \<open>Two small graphs\<close>

lemma three_cycle_unique:
  assumes "simple_cycle [(''A'', [''B'']), (''B'', [''C'']), (''C'', [''A''])] c"
  shows "c = [''A'', ''B'', ''C''] \<or> c = [''B'', ''C'', ''A''] \<or> c = [''C'', ''A'', ''B'']"
proof -
  let ?g = "[(''A'', [''B'']), (''B'', [''C'']), (''C'', [''A''])]"
  have step: "v \<in> set (graph_get ?g u) \<longleftrightarrow>
      (u = ''A'' \<and> v = ''B'') \<or> (u = ''B'' \<and> v = ''C'') \<or> (u = ''C'' \<and> v = ''A'')" for u v
    by (auto simp: graph_get_def)
  from assms have ne: "c \<noteq> []" and d: "distinct c"
    and w: "successively (\<lambda>u v. (u = ''A'' \<and> v = ''B'') \<or> (u = ''B'' \<and> v = ''C'') \<or> (u = ''C'' \<and> v = ''A'')) c"
    and cl: "(last c = ''A'' \<and> hd c = ''B'') \<or> (last c = ''B'' \<and> hd c = ''C'') \<or> (last c = ''C'' \<and> hd c = ''A'')"
    unfolding simple_cycle_def walk_def step by simp_all
  show ?thesis
  proof (cases c)
    case Nil
    with ne show ?thesis by simp
  next
    case c1: (Cons x1 r1)
    show ?thesis
    proof (cases r1)
      case Nil
      with c1 cl show ?thesis by auto
    next
      case c2: (Cons x2 r2)
      show ?thesis
      proof (cases r2)
        case Nil
        with c1 c2 cl w show ?thesis by auto
      next
        case c3: (Cons x3 r3)
        show ?thesis
        proof (cases r3)
          case Nil
          with c1 c2 c3 cl w show ?thesis by auto
        next
          case c4: (Cons x4 r4)
          with c1 c2 c3 w d show ?thesis by auto
        qed
      qed
    qed
  qed
qed

lemma self_loop_unique:
  assumes "simple_cycle [(''A'', [''A''])] c"
  shows "c = [''A'']"
proof -
  have step: "v \<in> set (graph_get [(''A'', [''A''])] u) \<longleftrightarrow> u = ''A'' \<and> v = ''A''" for u v
    by (auto simp: graph_get_def)
  from assms have ne: "c \<noteq> []" and d: "distinct c"
    and w: "successively (\<lambda>u v. u = ''A'' \<and> v = ''A'') c"
    and cl: "last c = ''A'' \<and> hd c = ''A''"
    unfolding simple_cycle_def walk_def step by simp_all
  show ?thesis
  proof (cases c)
    case Nil
    with ne show ?thesis by simp
  next
    case c1: (Cons x1 r1)
    show ?thesis
    proof (cases r1)
      case Nil
      with c1 cl show ?thesis by simp
    next
      case (Cons x2 r2)
      with c1 w d show ?thesis by auto
    qed
  qed
qed

subsection \<open>Built graphs\<close>

lemma validate_built:
  assumes "build_dependency_graph asmdef_files = (graph, assemblies)"
  shows "set (validate_shared_namespace_isolation graph assemblies) = shared_feature_edges graph"
proof -
  have "(s, t) \<in> set (validate_shared_namespace_isolation graph assemblies) \<longleftrightarrow>
        (s, t) \<in> shared_feature_edges graph" for s t
    using build_edges(1,2) [OF assms, of t s]
    by (auto simp: validate_set shared_feature_edges_def edges_def)
  then show ?thesis by auto
qed

lemma validate_count:
  assumes "build_dependency_graph asmdef_files = (graph, assemblies)"
  shows "length (validate_shared_namespace_isolation graph assemblies) =
     sum_list (map (\<lambda>(name, asmdef).
                  length (filter (\<lambda>ref. ref \<in> set (feature_assemblies assemblies)) (asmdef_references asmdef)))
               (filter (\<lambda>(name, asmdef). str_contains ''Shared'' name) assemblies))"
proof -
  have d: "distinct (map fst assemblies)" by (rule build_assemblies(1) [OF assms])
  have feat: "set (feature_assemblies assemblies) \<subseteq> set (map fst assemblies)"
    by (auto simp: feature_assemblies_def)
  have entry: "filter (\<lambda>ref. ref \<in> set (feature_assemblies assemblies)) (graph_get graph name) =
        filter (\<lambda>ref. ref \<in> set (feature_assemblies assemblies)) (asmdef_references asmdef)"
    if "(name, asmdef) \<in> set assemblies" for name asmdef
  proof -
    from d that have "map_of assemblies name = Some asmdef" by simp
    then have "graph_get graph name =
        filter (\<lambda>ref. ref \<in> set (map fst assemblies)) (asmdef_references asmdef)"
      by (simp add: build_graph_get [OF assms])
    with feat show ?thesis by (auto intro: filter_cong)
  qed
  have "map (\<lambda>shared. length (filter (\<lambda>ref. ref \<in> set (feature_assemblies assemblies)) (graph_get graph shared)))
          (shared_assemblies assemblies) =
        map (\<lambda>(name, asmdef).
                  length (filter (\<lambda>ref. ref \<in> set (feature_assemblies assemblies)) (asmdef_references asmdef)))
               (filter (\<lambda>(name, asmdef). str_contains ''Shared'' name) assemblies)"
    unfolding shared_assemblies_def filter_map map_map
    by (rule map_cong) (auto simp: comp_def case_prod_beta entry intro: filter_cong)
  then show ?thesis by (simp add: validate_length)
qed

lemma validate_distinct_built:
  assumes "build_dependency_graph asmdef_files = (graph, assemblies)"
    and "\<forall>(name, asmdef)\<in>set assemblies. distinct (asmdef_references asmdef)"
  shows "distinct (validate_shared_namespace_isolation graph assemblies)"
proof (rule validate_distinct)
  show "distinct (map fst assemblies)" by (rule build_assemblies(1) [OF assms(1)])
  show "\<forall>s\<in>fst ` set assemblies. distinct (graph_get graph s)"
  proof
    fix s assume "s \<in> fst ` set assemblies"
    show "distinct (graph_get graph s)"
    proof (cases "map_of assemblies s")
      case None
      then show ?thesis by (simp add: build_graph_get [OF assms(1)])
    next
      case (Some asmdef)
      then have "(s, asmdef) \<in> set assemblies" by (rule map_of_SomeD)
      with assms(2) have "distinct (asmdef_references asmdef)" by auto
      with Some show ?thesis by (simp add: build_graph_get [OF assms(1)])
    qed
  qed
qed

lemma declared_append: "declared (xs @ ys) name = declared xs name @ declared ys name"
  by (simp add: declared_def parsed_append)

lemma declared_Some: "declared (Some a # xs) name = (if asmdef_name a = name then a # declared xs name else declared xs name)"
  by (simp add: declared_def)

lemma build_lookup:
  "map_of (snd (build_dependency_graph asmdef_files)) name =
     (if declared asmdef_files name = [] then None else Some (last (declared asmdef_files name)))"
  by (rule build_assemblies(2) [OF prod.collapse [symmetric]])

lemma build_graph_get_map:
  assumes "map_of (snd (build_dependency_graph fs)) = map_of (snd (build_dependency_graph fs'))"
  shows "graph_get (fst (build_dependency_graph fs)) = graph_get (fst (build_dependency_graph fs'))"
proof
  fix name
  have k: "set (map fst (snd (build_dependency_graph fs))) = set (map fst (snd (build_dependency_graph fs')))"
    using assms by (metis dom_map_of_conv_image_fst set_map)
  have b: "build_dependency_graph fs = (fst (build_dependency_graph fs), snd (build_dependency_graph fs))"
    and b': "build_dependency_graph fs' = (fst (build_dependency_graph fs'), snd (build_dependency_graph fs'))"
    by simp_all
  show "graph_get (fst (build_dependency_graph fs)) name = graph_get (fst (build_dependency_graph fs')) name"
    unfolding build_graph_get [OF b] build_graph_get [OF b'] k assms ..
qed

subsection \<open>The driver\<close>

lemma main_header_lines:
  "ViolationLine v \<notin> set (main_header asmdef_files graph assemblies)"
  "CyclePath c \<notin> set (main_header asmdef_files graph assemblies)"
  by (auto simp: main_header_def)

lemma main_cases:
  assumes "build_dependency_graph asmdef_files = (graph, assemblies)"
  shows "main depth asmdef_files =
     (case detect_circular_dependencies depth graph of
        Inl e \<Rightarrow> Inl e
      | Inr None \<Rightarrow> Inr (main_isolation (main_header asmdef_files graph assemblies) graph assemblies)
      | Inr (Some cycle) \<Rightarrow> Inr (main_header asmdef_files graph assemblies @ [CycleDetected, CyclePath cycle], 1))"
proof (cases "detect_circular_dependencies depth graph")
  case (Inl e)
  then show ?thesis by (simp add: main_def assms)
next
  case (Inr r)
  show ?thesis
  proof (cases r)
    case None
    with Inr show ?thesis by (simp add: main_def assms)
  next
    case (Some cycle)
    with Inr have "cycle \<noteq> []" by (intro detect_Some_nodes(1) [of depth graph]) simp
    with Inr Some show ?thesis by (simp add: main_def assms)
  qed
qed


section \<open>The claims\<close>

text \<open>
  In every theorem \<open>depth\<close> is the number of frames of \<^verbatim>\<open>dfs\<close> that the interpreter
  still allows when the detector is called (CPython's recursion limit, 1000 frames unless
  it is changed, less the frames in use). A search is never deeper than the number of nodes
  of the graph, so the condition \<open>length (graph_nodes graph) \<le> depth\<close> excludes
  \<^verbatim>\<open>RecursionError\<close>, which is the only exception of the modelled code. On a graph with
  a path longer than \<open>depth\<close> the detector raises it, and the exception leaves \<^verbatim>\<open>main\<close>:
  the process then ends with a non-zero exit code and no verdict.
\<close>

text \<open>
  C1. The Validation Driver always runs both checks: the isolation check is executed and
  its violations are reported even when the cycle detector has found a cycle.

  The source does otherwise: \<^verbatim>\<open>main\<close> returns 1 as soon as the detector has returned a
  cycle. What holds is this. When a cycle is found, the output names the cycle, holds no
  violation line, and the result is 1. When no cycle is found, the isolation check runs and
  the violation lines of the output are exactly the violations that it returns.
\<close>

theorem isolation_check_after_no_cycle:
  assumes "build_dependency_graph asmdef_files = (graph, assemblies)"
    and "main depth asmdef_files = Inr (out, code)"
  shows "(\<forall>cycle. detect_circular_dependencies depth graph = Inr (Some cycle) \<longrightarrow>
            CyclePath cycle \<in> set out \<and> (\<forall>v. ViolationLine v \<notin> set out) \<and> code = 1) \<and>
         (detect_circular_dependencies depth graph = Inr None \<longrightarrow>
            (\<forall>c. CyclePath c \<notin> set out) \<and>
            (\<forall>v. ViolationLine v \<in> set out \<longleftrightarrow>
                   v \<in> set (validate_shared_namespace_isolation graph assemblies)))"
proof (intro conjI allI impI)
  fix cycle assume "detect_circular_dependencies depth graph = Inr (Some cycle)"
  with assms(2) have o: "out = main_header asmdef_files graph assemblies @ [CycleDetected, CyclePath cycle]"
    and c: "code = 1" by (simp_all add: main_cases [OF assms(1)])
  from o show "CyclePath cycle \<in> set out" by simp
  from c show "code = 1" .
  fix v from o show "ViolationLine v \<notin> set out" by (simp add: main_header_lines)
next
  assume "detect_circular_dependencies depth graph = Inr None"
  with assms(2) have o: "(out, code) = main_isolation (main_header asmdef_files graph assemblies) graph assemblies"
    by (simp add: main_cases [OF assms(1)])
  then have out: "out = main_header asmdef_files graph assemblies @
      (if validate_shared_namespace_isolation graph assemblies \<noteq> []
       then [NoCycles, ValidatingIsolation, IsolationViolations] @
            map ViolationLine (validate_shared_namespace_isolation graph assemblies)
       else [NoCycles, ValidatingIsolation, IsolationOk, AllPassed])"
    by (simp add: main_isolation_def Let_def split: if_splits)
  fix c show "CyclePath c \<notin> set out" unfolding out by (auto simp: main_header_lines)
  fix v show "ViolationLine v \<in> set out \<longleftrightarrow> v \<in> set (validate_shared_namespace_isolation graph assemblies)"
    unfolding out by (auto simp: main_header_lines)
qed

theorem isolation_check_after_no_cycle_witness:
  "main 2
     [Some \<lparr>asmdef_name = ''SharedCore'', asmdef_references = [''FeatureLogin''], asmdef_path = []\<rparr>,
      Some \<lparr>asmdef_name = ''FeatureLogin'', asmdef_references = [], asmdef_path = []\<rparr>]
   = Inr ([Analyzing, FoundFiles 2, Discovered 2, AssemblyLine ''FeatureLogin'' 0,
           AssemblyLine ''SharedCore'' 1, CheckingCycles, NoCycles, ValidatingIsolation,
           IsolationViolations, ViolationLine (''SharedCore'', ''FeatureLogin'')], 1) \<and>
   detect_circular_dependencies 2 (fst (build_dependency_graph
     [Some \<lparr>asmdef_name = ''SharedCore'', asmdef_references = [''FeatureLogin''], asmdef_path = []\<rparr>,
      Some \<lparr>asmdef_name = ''FeatureLogin'', asmdef_references = [], asmdef_path = []\<rparr>])) = Inr None \<and>
   set (validate_shared_namespace_isolation
     (fst (build_dependency_graph
     [Some \<lparr>asmdef_name = ''SharedCore'', asmdef_references = [''FeatureLogin''], asmdef_path = []\<rparr>,
      Some \<lparr>asmdef_name = ''FeatureLogin'', asmdef_references = [], asmdef_path = []\<rparr>]))
     (snd (build_dependency_graph
     [Some \<lparr>asmdef_name = ''SharedCore'', asmdef_references = [''FeatureLogin''], asmdef_path = []\<rparr>,
      Some \<lparr>asmdef_name = ''FeatureLogin'', asmdef_references = [], asmdef_path = []\<rparr>])))
   = {(''SharedCore'', ''FeatureLogin'')}"
proof -
  let ?files = "[Some \<lparr>asmdef_name = ''SharedCore'', asmdef_references = [''FeatureLogin''], asmdef_path = []\<rparr>,
      Some \<lparr>asmdef_name = ''FeatureLogin'', asmdef_references = [], asmdef_path = []\<rparr>]"
  let ?out = "[Analyzing, FoundFiles 2, Discovered 2, AssemblyLine ''FeatureLogin'' 0,
           AssemblyLine ''SharedCore'' 1, CheckingCycles, NoCycles, ValidatingIsolation,
           IsolationViolations, ViolationLine (''SharedCore'', ''FeatureLogin'')]"
  have b: "build_dependency_graph ?files = (fst (build_dependency_graph ?files), snd (build_dependency_graph ?files))"
    by simp
  have m: "main 2 ?files = Inr (?out, 1)" by code_simp
  have d: "detect_circular_dependencies 2 (fst (build_dependency_graph ?files)) = Inr None" by code_simp
  from isolation_check_after_no_cycle [OF b m] d
  have "\<forall>v. ViolationLine v \<in> set ?out \<longleftrightarrow>
     v \<in> set (validate_shared_namespace_isolation (fst (build_dependency_graph ?files)) (snd (build_dependency_graph ?files)))"
    by blast
  then have "set (validate_shared_namespace_isolation (fst (build_dependency_graph ?files)) (snd (build_dependency_graph ?files)))
     = {(''SharedCore'', ''FeatureLogin'')}" by auto
  with m d show ?thesis by simp
qed

text \<open>
  C1 as stated fails on two modules that reference each other, one of them shared: the
  checker has a violation to report for this graph, and the output of \<^verbatim>\<open>main\<close> ends
  with the cycle.
\<close>

theorem isolation_check_skipped_counterexample:
  "main 2
     [Some \<lparr>asmdef_name = ''SharedCore'', asmdef_references = [''FeatureLogin''], asmdef_path = []\<rparr>,
      Some \<lparr>asmdef_name = ''FeatureLogin'', asmdef_references = [''SharedCore''], asmdef_path = []\<rparr>]
   = Inr ([Analyzing, FoundFiles 2, Discovered 2, AssemblyLine ''FeatureLogin'' 1,
           AssemblyLine ''SharedCore'' 1, CheckingCycles, CycleDetected,
           CyclePath [''SharedCore'', ''FeatureLogin'', ''SharedCore'']], 1) \<and>
   validate_shared_namespace_isolation
     (fst (build_dependency_graph
       [Some \<lparr>asmdef_name = ''SharedCore'', asmdef_references = [''FeatureLogin''], asmdef_path = []\<rparr>,
        Some \<lparr>asmdef_name = ''FeatureLogin'', asmdef_references = [''SharedCore''], asmdef_path = []\<rparr>]))
     (snd (build_dependency_graph
       [Some \<lparr>asmdef_name = ''SharedCore'', asmdef_references = [''FeatureLogin''], asmdef_path = []\<rparr>,
        Some \<lparr>asmdef_name = ''FeatureLogin'', asmdef_references = [''SharedCore''], asmdef_path = []\<rparr>]))
   = [(''SharedCore'', ''FeatureLogin'')]"
  by code_simp

text \<open>
  C2. For every dependency graph that contains no cycle, the Cycle Detector returns
  ``no cycle'', and it does so only after every node has been explored without an edge
  reaching a node on the current recursion stack.

  The recursion of \<^verbatim>\<open>dfs\<close> is as deep as the path it follows, so the claim holds for
  the graphs that have no more nodes than the interpreter allows frames of \<^verbatim>\<open>dfs\<close>. On
  such an acyclic graph the detector returns \<^verbatim>\<open>None\<close>, and its loop over the keys ends with
  every node of the graph in \<^verbatim>\<open>visited\<close>. The branch that meets a node of the recursion
  stack is the only one that produces a list, and a list is returned at once by every
  caller, so the result \<^verbatim>\<open>None\<close> is that of a run in which that branch was never taken.
\<close>

theorem acyclic_graph_no_cycle:
  assumes "acyclic (edges g)" and "length (graph_nodes g) \<le> depth"
  shows "detect_circular_dependencies depth g = Inr None \<and>
         detect_for depth g (map fst g) {} = Inr (None, set (graph_nodes g))"
proof -
  from detect_total [OF assms(2)] obtain cycle where c: "detect_circular_dependencies depth g = Inr cycle"
    by blast
  have "cycle = None"
  proof (cases cycle)
    case (Some c')
    with c assms(1) detect_Some_not_acyclic show ?thesis by blast
  qed simp
  with c detect_None(2) [of depth g] show ?thesis by simp
qed

theorem acyclic_graph_no_cycle_witness:
  "acyclic (edges [(''A'', [''B'']), (''B'', [''C''])]) \<and>
   length (graph_nodes [(''A'', [''B'']), (''B'', [''C''])]) \<le> 3 \<and>
   detect_circular_dependencies 3 [(''A'', [''B'']), (''B'', [''C''])] = Inr None \<and>
   detect_for 3 [(''A'', [''B'']), (''B'', [''C''])] [''A'', ''B''] {} = Inr (None, {''A'', ''B'', ''C''})"
proof -
  let ?g = "[(''A'', [''B'']), (''B'', [''C''])]"
  have "detect_circular_dependencies 3 ?g = Inr None" by code_simp
  then have a: "acyclic (edges ?g)" by (rule detect_None(1))
  have l: "length (graph_nodes ?g) \<le> 3" by (simp add: graph_nodes_def graph_get_def)
  have s: "set (graph_nodes ?g) = {''A'', ''B'', ''C''}" by (auto simp add: graph_nodes_def graph_get_def)
  from acyclic_graph_no_cycle [OF a l] a l s show ?thesis by simp
qed

text \<open>
  C2 as stated fails on an acyclic chain that is longer than the frames allowed: the chain
  of three modules with two frames left raises \<^verbatim>\<open>RecursionError\<close> and returns nothing.
\<close>

theorem deep_acyclic_graph_counterexample:
  "acyclic (edges [(''A'', [''B'']), (''B'', [''C''])]) \<and>
   detect_circular_dependencies 2 [(''A'', [''B'']), (''B'', [''C''])] = Inl RecursionError"
proof -
  have "detect_circular_dependencies 3 [(''A'', [''B'']), (''B'', [''C''])] = Inr None" by code_simp
  then have "acyclic (edges [(''A'', [''B'']), (''B'', [''C''])])" by (rule detect_None(1))
  moreover have "detect_circular_dependencies 2 [(''A'', [''B'']), (''B'', [''C''])] = Inl RecursionError"
    by code_simp
  ultimately show ?thesis by simp
qed

text \<open>
  C3. For every dependency graph containing exactly one simple cycle of length \<open>k\<close>, the
  Cycle Detector returns a path of length \<open>k + 1\<close> whose first and last elements are
  equal, and in which every pair of consecutive entries is connected by a graph edge.

  The claim holds for the graphs that have no more nodes than the interpreter allows
  frames of \<^verbatim>\<open>dfs\<close>. The graph has the simple cycle \<open>c0\<close> of length \<open>k\<close>, and every simple
  cycle of the graph is a rotation of \<open>c0\<close>.
\<close>

theorem single_cycle_reported:
  assumes "simple_cycle g c0" and "length c0 = k"
    and "\<forall>c. simple_cycle g c \<longrightarrow> (\<exists>n. c = rotate n c0)"
    and "length (graph_nodes g) \<le> depth"
  shows "\<exists>cycle. detect_circular_dependencies depth g = Inr (Some cycle) \<and>
           length cycle = k + 1 \<and> hd cycle = last cycle \<and> walk g cycle"
proof -
  from detect_total [OF assms(4)] obtain r where r: "detect_circular_dependencies depth g = Inr r"
    by blast
  show ?thesis
  proof (cases r)
    case None
    with r have "acyclic (edges g)" by (simp add: detect_None(1))
    with assms(1) simple_cycle_not_acyclic show ?thesis by blast
  next
    case (Some cycle)
    with r detect_Some [of depth g cycle] obtain c1 where
      c1: "cycle = c1 @ [hd c1]" "simple_cycle g c1" by auto
    from c1(2) assms(3) obtain n where "c1 = rotate n c0" by blast
    with assms(2) have len: "length c1 = k" by simp
    from c1(2) have ne: "c1 \<noteq> []" by (simp add: simple_cycle_def)
    have "length cycle = k + 1" using c1(1) len by (metis length_append_singleton Suc_eq_plus1)
    moreover have "hd cycle = last cycle" using c1(1) ne by (metis hd_append2 last_snoc)
    moreover have "walk g cycle" using simple_cycle_closed(1) [OF c1(2)] c1(1) by simp
    ultimately show ?thesis using r Some by simp
  qed
qed

theorem single_cycle_reported_witness:
  "simple_cycle [(''A'', [''B'']), (''B'', [''C'']), (''C'', [''A''])] [''A'', ''B'', ''C''] \<and>
   detect_circular_dependencies 3 [(''A'', [''B'']), (''B'', [''C'']), (''C'', [''A''])]
     = Inr (Some [''A'', ''B'', ''C'', ''A''])"
proof -
  let ?g = "[(''A'', [''B'']), (''B'', [''C'']), (''C'', [''A''])]"
  have sc: "simple_cycle ?g [''A'', ''B'', ''C'']"
    by (simp add: simple_cycle_def walk_def graph_get_def)
  have len: "length [''A'', ''B'', ''C''] = 3" by simp
  have uniq: "\<forall>c. simple_cycle ?g c \<longrightarrow> (\<exists>n. c = rotate n [''A'', ''B'', ''C''])"
  proof (intro allI impI)
    fix c assume "simple_cycle ?g c"
    then consider "c = [''A'', ''B'', ''C'']" | "c = [''B'', ''C'', ''A'']" | "c = [''C'', ''A'', ''B'']"
      using three_cycle_unique by blast
    then show "\<exists>n. c = rotate n [''A'', ''B'', ''C'']"
    proof cases
      case 1
      then have "c = rotate 0 [''A'', ''B'', ''C'']" by simp
      then show ?thesis by blast
    next
      case 2
      then have "c = rotate (Suc 0) [''A'', ''B'', ''C'']" by (simp add: rotate1_def)
      then show ?thesis by blast
    next
      case 3
      then have "c = rotate (Suc (Suc 0)) [''A'', ''B'', ''C'']" by (simp add: rotate1_def)
      then show ?thesis by blast
    qed
  qed
  have nodes: "length (graph_nodes ?g) \<le> 3" by (simp add: graph_nodes_def graph_get_def)
  have ev: "detect_circular_dependencies 3 ?g = Inr (Some [''A'', ''B'', ''C'', ''A''])" by code_simp
  from single_cycle_reported [OF sc len uniq nodes] sc ev show ?thesis by simp
qed

text \<open>
  C3 as stated fails on a ring that is longer than the frames allowed: the ring of three
  modules, whose simple cycles are the three rotations of one cycle, raises
  \<^verbatim>\<open>RecursionError\<close> with two frames left and returns no path.
\<close>

theorem deep_single_cycle_counterexample:
  "{c. simple_cycle [(''A'', [''B'']), (''B'', [''C'']), (''C'', [''A''])] c}
     = {[''A'', ''B'', ''C''], [''B'', ''C'', ''A''], [''C'', ''A'', ''B'']} \<and>
   detect_circular_dependencies 2 [(''A'', [''B'']), (''B'', [''C'']), (''C'', [''A''])]
     = Inl RecursionError"
proof -
  let ?g = "[(''A'', [''B'']), (''B'', [''C'']), (''C'', [''A''])]"
  have "simple_cycle ?g [''A'', ''B'', ''C'']" "simple_cycle ?g [''B'', ''C'', ''A'']"
    "simple_cycle ?g [''C'', ''A'', ''B'']"
    by (simp_all add: simple_cycle_def walk_def graph_get_def)
  with three_cycle_unique
  have "{c. simple_cycle ?g c} = {[''A'', ''B'', ''C''], [''B'', ''C'', ''A''], [''C'', ''A'', ''B'']}"
    by blast
  moreover have "detect_circular_dependencies 2 ?g = Inl RecursionError" by code_simp
  ultimately show ?thesis by simp
qed

text \<open>
  C4. For every module set in which exactly \<open>N\<close> distinct shared-to-feature edges exist in
  the graph, the Isolation Policy Checker returns a violation list with exactly \<open>N\<close>
  entries: it never stops at the first violation and never deduplicates.

  The graph keeps a reference that a manifest lists twice as two targets, and the checker
  does not deduplicate, so the list has one entry for every occurrence of a feature
  assembly in the reference list of a shared assembly. It has as many entries as there
  are distinct shared-to-feature edges when no manifest lists a reference twice.
\<close>

theorem violations_per_reference:
  assumes "build_dependency_graph asmdef_files = (graph, assemblies)"
  shows "length (validate_shared_namespace_isolation graph assemblies) =
           sum_list (map (\<lambda>(name, asmdef).
                  length (filter (\<lambda>ref. ref \<in> set (feature_assemblies assemblies)) (asmdef_references asmdef)))
               (filter (\<lambda>(name, asmdef). str_contains ''Shared'' name) assemblies)) \<and>
         ((\<forall>(name, asmdef)\<in>set assemblies. distinct (asmdef_references asmdef)) \<longrightarrow>
            length (validate_shared_namespace_isolation graph assemblies) = card (shared_feature_edges graph))"
proof (intro conjI impI)
  show "length (validate_shared_namespace_isolation graph assemblies) =
           sum_list (map (\<lambda>(name, asmdef).
                  length (filter (\<lambda>ref. ref \<in> set (feature_assemblies assemblies)) (asmdef_references asmdef)))
               (filter (\<lambda>(name, asmdef). str_contains ''Shared'' name) assemblies))"
    by (rule validate_count [OF assms])
next
  assume "\<forall>(name, asmdef)\<in>set assemblies. distinct (asmdef_references asmdef)"
  then have "distinct (validate_shared_namespace_isolation graph assemblies)"
    by (rule validate_distinct_built [OF assms])
  then have "card (set (validate_shared_namespace_isolation graph assemblies)) =
      length (validate_shared_namespace_isolation graph assemblies)" by (rule distinct_card)
  then show "length (validate_shared_namespace_isolation graph assemblies) = card (shared_feature_edges graph)"
    by (simp add: validate_built [OF assms])
qed

theorem violations_per_reference_witness:
  "list_all (\<lambda>(name, asmdef). distinct (asmdef_references asmdef))
     (snd (build_dependency_graph
      [Some \<lparr>asmdef_name = ''SharedCore'', asmdef_references = [''FeatureLogin'', ''FeatureShop''], asmdef_path = []\<rparr>,
       Some \<lparr>asmdef_name = ''FeatureLogin'', asmdef_references = [], asmdef_path = []\<rparr>,
       Some \<lparr>asmdef_name = ''FeatureShop'', asmdef_references = [''FeatureLogin''], asmdef_path = []\<rparr>])) \<and>
   validate_shared_namespace_isolation
     (fst (build_dependency_graph
      [Some \<lparr>asmdef_name = ''SharedCore'', asmdef_references = [''FeatureLogin'', ''FeatureShop''], asmdef_path = []\<rparr>,
       Some \<lparr>asmdef_name = ''FeatureLogin'', asmdef_references = [], asmdef_path = []\<rparr>,
       Some \<lparr>asmdef_name = ''FeatureShop'', asmdef_references = [''FeatureLogin''], asmdef_path = []\<rparr>]))
     (snd (build_dependency_graph
      [Some \<lparr>asmdef_name = ''SharedCore'', asmdef_references = [''FeatureLogin'', ''FeatureShop''], asmdef_path = []\<rparr>,
       Some \<lparr>asmdef_name = ''FeatureLogin'', asmdef_references = [], asmdef_path = []\<rparr>,
       Some \<lparr>asmdef_name = ''FeatureShop'', asmdef_references = [''FeatureLogin''], asmdef_path = []\<rparr>]))
     = [(''SharedCore'', ''FeatureLogin''), (''SharedCore'', ''FeatureShop'')] \<and>
   card (shared_feature_edges (fst (build_dependency_graph
      [Some \<lparr>asmdef_name = ''SharedCore'', asmdef_references = [''FeatureLogin'', ''FeatureShop''], asmdef_path = []\<rparr>,
       Some \<lparr>asmdef_name = ''FeatureLogin'', asmdef_references = [], asmdef_path = []\<rparr>,
       Some \<lparr>asmdef_name = ''FeatureShop'', asmdef_references = [''FeatureLogin''], asmdef_path = []\<rparr>]))) = 2"
proof -
  let ?files = "[Some \<lparr>asmdef_name = ''SharedCore'', asmdef_references = [''FeatureLogin'', ''FeatureShop''], asmdef_path = []\<rparr>,
       Some \<lparr>asmdef_name = ''FeatureLogin'', asmdef_references = [], asmdef_path = []\<rparr>,
       Some \<lparr>asmdef_name = ''FeatureShop'', asmdef_references = [''FeatureLogin''], asmdef_path = []\<rparr>]"
  let ?g = "fst (build_dependency_graph ?files)"
  let ?a = "snd (build_dependency_graph ?files)"
  have b: "build_dependency_graph ?files = (?g, ?a)" by simp
  have la: "list_all (\<lambda>(name, asmdef). distinct (asmdef_references asmdef)) ?a" by code_simp
  then have d: "\<forall>(name, asmdef)\<in>set ?a. distinct (asmdef_references asmdef)"
    by (simp add: list_all_iff)
  have v: "validate_shared_namespace_isolation ?g ?a
     = [(''SharedCore'', ''FeatureLogin''), (''SharedCore'', ''FeatureShop'')]" by code_simp
  from violations_per_reference [OF b] d
  have "length (validate_shared_namespace_isolation ?g ?a) = card (shared_feature_edges ?g)" by blast
  with la v show ?thesis by simp
qed

text \<open>
  C4 as stated fails when a shared assembly lists a feature assembly twice: one distinct
  edge, two entries.
\<close>

theorem violations_duplicate_reference_counterexample:
  "card (shared_feature_edges (fst (build_dependency_graph
      [Some \<lparr>asmdef_name = ''SharedCore'', asmdef_references = [''FeatureLogin'', ''FeatureLogin''], asmdef_path = []\<rparr>,
       Some \<lparr>asmdef_name = ''FeatureLogin'', asmdef_references = [], asmdef_path = []\<rparr>]))) = 1 \<and>
   length (validate_shared_namespace_isolation
     (fst (build_dependency_graph
      [Some \<lparr>asmdef_name = ''SharedCore'', asmdef_references = [''FeatureLogin'', ''FeatureLogin''], asmdef_path = []\<rparr>,
       Some \<lparr>asmdef_name = ''FeatureLogin'', asmdef_references = [], asmdef_path = []\<rparr>]))
     (snd (build_dependency_graph
      [Some \<lparr>asmdef_name = ''SharedCore'', asmdef_references = [''FeatureLogin'', ''FeatureLogin''], asmdef_path = []\<rparr>,
       Some \<lparr>asmdef_name = ''FeatureLogin'', asmdef_references = [], asmdef_path = []\<rparr>]))) = 2"
proof -
  let ?files = "[Some \<lparr>asmdef_name = ''SharedCore'', asmdef_references = [''FeatureLogin'', ''FeatureLogin''], asmdef_path = []\<rparr>,
       Some \<lparr>asmdef_name = ''FeatureLogin'', asmdef_references = [], asmdef_path = []\<rparr>]"
  let ?g = "fst (build_dependency_graph ?files)"
  let ?a = "snd (build_dependency_graph ?files)"
  have b: "build_dependency_graph ?files = (?g, ?a)" by simp
  have v: "validate_shared_namespace_isolation ?g ?a
     = [(''SharedCore'', ''FeatureLogin''), (''SharedCore'', ''FeatureLogin'')]" by code_simp
  have "shared_feature_edges ?g = set (validate_shared_namespace_isolation ?g ?a)"
    by (rule validate_built [OF b, symmetric])
  with v show ?thesis by simp
qed

text \<open>
  C5. For every edge \<open>(s, t)\<close> of the dependency graph, the Isolation Policy Checker
  records a violation for \<open>(s, t)\<close> if and only if the name of \<open>s\<close> contains the substring
  \<^verbatim>\<open>Shared\<close> and the name of \<open>t\<close> contains neither \<^verbatim>\<open>Shared\<close> nor \<^verbatim>\<open>Unity.\<close>
\<close>

theorem isolation_violation_iff:
  assumes "build_dependency_graph asmdef_files = (graph, assemblies)"
    and "(s, t) \<in> edges graph"
  shows "(s, t) \<in> set (validate_shared_namespace_isolation graph assemblies) \<longleftrightarrow>
           str_contains ''Shared'' s \<and> \<not> str_contains ''Shared'' t \<and> \<not> str_contains ''Unity.'' t"
  using assms(2) unfolding validate_built [OF assms(1)] by (simp add: shared_feature_edges_def)

theorem isolation_violation_iff_witness:
  "build_dependency_graph
     [Some \<lparr>asmdef_name = ''SharedCore'', asmdef_references = [''FeatureLogin'', ''Unity.Entities''], asmdef_path = ''a''\<rparr>,
      Some \<lparr>asmdef_name = ''FeatureLogin'', asmdef_references = [''Unity.Entities''], asmdef_path = ''b''\<rparr>,
      Some \<lparr>asmdef_name = ''Unity.Entities'', asmdef_references = [], asmdef_path = ''c''\<rparr>]
   = ([(''SharedCore'', [''FeatureLogin'', ''Unity.Entities'']), (''FeatureLogin'', [''Unity.Entities''])],
      [(''SharedCore'', \<lparr>asmdef_name = ''SharedCore'', asmdef_references = [''FeatureLogin'', ''Unity.Entities''], asmdef_path = ''a''\<rparr>),
       (''FeatureLogin'', \<lparr>asmdef_name = ''FeatureLogin'', asmdef_references = [''Unity.Entities''], asmdef_path = ''b''\<rparr>),
       (''Unity.Entities'', \<lparr>asmdef_name = ''Unity.Entities'', asmdef_references = [], asmdef_path = ''c''\<rparr>)]) \<and>
   (''SharedCore'', ''FeatureLogin'') \<in> edges [(''SharedCore'', [''FeatureLogin'', ''Unity.Entities'']), (''FeatureLogin'', [''Unity.Entities''])] \<and>
   (''SharedCore'', ''FeatureLogin'') \<in> set (validate_shared_namespace_isolation
      [(''SharedCore'', [''FeatureLogin'', ''Unity.Entities'']), (''FeatureLogin'', [''Unity.Entities''])]
      [(''SharedCore'', \<lparr>asmdef_name = ''SharedCore'', asmdef_references = [''FeatureLogin'', ''Unity.Entities''], asmdef_path = ''a''\<rparr>),
       (''FeatureLogin'', \<lparr>asmdef_name = ''FeatureLogin'', asmdef_references = [''Unity.Entities''], asmdef_path = ''b''\<rparr>),
       (''Unity.Entities'', \<lparr>asmdef_name = ''Unity.Entities'', asmdef_references = [], asmdef_path = ''c''\<rparr>)]) \<and>
   str_contains ''Shared'' ''SharedCore'' \<and> \<not> str_contains ''Shared'' ''FeatureLogin'' \<and>
   \<not> str_contains ''Unity.'' ''FeatureLogin''"
proof -
  let ?files = "[Some \<lparr>asmdef_name = ''SharedCore'', asmdef_references = [''FeatureLogin'', ''Unity.Entities''], asmdef_path = ''a''\<rparr>,
      Some \<lparr>asmdef_name = ''FeatureLogin'', asmdef_references = [''Unity.Entities''], asmdef_path = ''b''\<rparr>,
      Some \<lparr>asmdef_name = ''Unity.Entities'', asmdef_references = [], asmdef_path = ''c''\<rparr>]"
  let ?g = "[(''SharedCore'', [''FeatureLogin'', ''Unity.Entities'']), (''FeatureLogin'', [''Unity.Entities''])]"
  let ?a = "[(''SharedCore'', \<lparr>asmdef_name = ''SharedCore'', asmdef_references = [''FeatureLogin'', ''Unity.Entities''], asmdef_path = ''a''\<rparr>),
       (''FeatureLogin'', \<lparr>asmdef_name = ''FeatureLogin'', asmdef_references = [''Unity.Entities''], asmdef_path = ''b''\<rparr>),
       (''Unity.Entities'', \<lparr>asmdef_name = ''Unity.Entities'', asmdef_references = [], asmdef_path = ''c''\<rparr>)]"
  have b: "build_dependency_graph ?files = (?g, ?a)" by code_simp
  have e: "(''SharedCore'', ''FeatureLogin'') \<in> edges ?g" by (simp add: edges_def graph_get_def)
  have s: "str_contains ''Shared'' ''SharedCore'' \<and> \<not> str_contains ''Shared'' ''FeatureLogin'' \<and>
   \<not> str_contains ''Unity.'' ''FeatureLogin''" by simp
  from isolation_violation_iff [OF b e] b e s show ?thesis by simp
qed

text \<open>
  C6. The Cycle Detector starts depth-first searches from unvisited nodes in ascending
  sorted order of module names and returns the first cycle discovered in that order.

  The source iterates over the keys of the graph in the order of the dictionary, which is
  the order of insertion and not the sorted one. What holds is this. A cycle that the
  detector returns was found by the search started at the first key, in the order of the
  dictionary, from which a cycle can be reached: no earlier key reaches a cycle, every
  node of the result is reachable from that key, and the result is a simple cycle closed
  by its first node.
\<close>

theorem first_cycle_in_key_order:
  assumes "detect_circular_dependencies depth g = Inr (Some cycle)"
  shows "\<exists>ks1 k ks2. map fst g = ks1 @ k # ks2 \<and>
           (\<forall>k'\<in>set ks1. \<not> reaches_cycle g k') \<and> reaches_cycle g k \<and>
           (\<forall>x\<in>set cycle. (k, x) \<in> (edges g)\<^sup>*) \<and>
           simple_cycle g (butlast cycle) \<and> cycle = butlast cycle @ [hd cycle]"
proof -
  from detect_Some [OF assms] obtain ks1 k ks2 c0 where
    k: "map fst g = ks1 @ k # ks2" "\<forall>k'\<in>set ks1. \<not> reaches_cycle g k'"
    and c0: "cycle = c0 @ [hd c0]" "simple_cycle g c0" "\<forall>x\<in>set c0. (k, x) \<in> (edges g)\<^sup>*"
    by blast
  from c0(2) have ne: "c0 \<noteq> []" by (simp add: simple_cycle_def)
  then have h: "hd c0 \<in> set c0" by simp
  from c0(1) ne have b: "butlast cycle = c0" and hd: "hd cycle = hd c0" by simp_all
  from h c0(3) have "(k, hd c0) \<in> (edges g)\<^sup>*" by blast
  with simple_cycle_closed(2) [OF c0(2)] have r: "reaches_cycle g k"
    unfolding reaches_cycle_def by blast
  from c0(1,3) h have "\<forall>x\<in>set cycle. (k, x) \<in> (edges g)\<^sup>*" by auto
  with k r c0(1,2) b hd show ?thesis by auto
qed

theorem first_cycle_in_key_order_witness:
  "detect_circular_dependencies 2 [(''B'', [''C'']), (''C'', [''C'']), (''A'', [''A''])]
     = Inr (Some [''C'', ''C'']) \<and>
   reaches_cycle [(''B'', [''C'']), (''C'', [''C'']), (''A'', [''A''])] ''B''"
proof -
  let ?g = "[(''B'', [''C'']), (''C'', [''C'']), (''A'', [''A''])]"
  have d: "detect_circular_dependencies 2 ?g = Inr (Some [''C'', ''C''])" by code_simp
  from first_cycle_in_key_order [OF d] obtain ks1 k ks2 where
    k: "map fst ?g = ks1 @ k # ks2" "\<forall>k'\<in>set ks1. \<not> reaches_cycle ?g k'" "reaches_cycle ?g k"
    by blast
  have "reaches_cycle ?g ''B''"
  proof (cases ks1)
    case Nil
    with k(1,3) show ?thesis by simp
  next
    case (Cons x xs)
    with k(1) have "x = ''B''" by simp
    with Cons k(2) have nb: "\<not> reaches_cycle ?g ''B''" by simp
    have "(''B'', ''C'') \<in> edges ?g" "(''C'', ''C'') \<in> edges ?g" by (simp_all add: edges_def graph_get_def)
    then have "reaches_cycle ?g ''B''" unfolding reaches_cycle_def by blast
    with nb show ?thesis by contradiction
  qed
  with d show ?thesis by simp
qed

text \<open>
  C6 as stated fails on two self-referencing modules whose manifests are read in the order
  B, A: the detector returns the cycle of B, and the search in sorted order returns the
  cycle of A.
\<close>

theorem start_order_not_sorted_counterexample:
  "detect_circular_dependencies 1 (fst (build_dependency_graph
     [Some \<lparr>asmdef_name = ''B'', asmdef_references = [''B''], asmdef_path = []\<rparr>,
      Some \<lparr>asmdef_name = ''A'', asmdef_references = [''A''], asmdef_path = []\<rparr>]))
     = Inr (Some [''B'', ''B'']) \<and>
   detect_circular_dependencies_sorted 1 (fst (build_dependency_graph
     [Some \<lparr>asmdef_name = ''B'', asmdef_references = [''B''], asmdef_path = []\<rparr>,
      Some \<lparr>asmdef_name = ''A'', asmdef_references = [''A''], asmdef_path = []\<rparr>]))
     = Inr (Some [''A'', ''A''])"
  by code_simp

text \<open>
  C7. For every input module set, the graph produced by the Graph Builder maps each module
  name to the set of module names it depends on (no duplicate edge targets), and contains
  only edges whose source and target are both names of known modules; a reference to a
  name absent from the module set never appears in the graph and never contributes to a
  cycle or an isolation violation.

  The graph maps a name to a list: the references of its manifest that are names of known
  modules, in the order of the manifest, a repeated reference being kept as often as it is
  written. The rest holds as stated: the known modules are those of the manifests that
  parsed, every key and every edge of the graph is between known modules, and a name that
  is not known is no node of the graph, occurs in no cycle that the detector returns and in
  no violation.
\<close>

theorem graph_only_known_modules:
  assumes "build_dependency_graph asmdef_files = (graph, assemblies)"
  shows "fst ` set assemblies = asmdef_name ` set (parsed asmdef_files) \<and>
         graph_get graph name =
           (case map_of assemblies name of
              None \<Rightarrow> []
            | Some asmdef \<Rightarrow> filter (\<lambda>ref. ref \<in> fst ` set assemblies) (asmdef_references asmdef)) \<and>
         fst ` set graph \<subseteq> fst ` set assemblies \<and>
         edges graph \<subseteq> fst ` set assemblies \<times> fst ` set assemblies \<and>
         (x \<notin> fst ` set assemblies \<longrightarrow>
            x \<notin> set (graph_nodes graph) \<and>
            (\<forall>cycle. detect_circular_dependencies depth graph = Inr (Some cycle) \<longrightarrow> x \<notin> set cycle) \<and>
            (\<forall>v\<in>set (validate_shared_namespace_isolation graph assemblies). fst v \<noteq> x \<and> snd v \<noteq> x))"
proof (intro conjI impI)
  show "fst ` set assemblies = asmdef_name ` set (parsed asmdef_files)"
    by (rule build_assemblies(3) [OF assms])
  show "graph_get graph name =
           (case map_of assemblies name of
              None \<Rightarrow> []
            | Some asmdef \<Rightarrow> filter (\<lambda>ref. ref \<in> fst ` set assemblies) (asmdef_references asmdef))"
    unfolding build_graph_get [OF assms] by (cases "map_of assemblies name") simp_all
  show "fst ` set graph \<subseteq> fst ` set assemblies" by (rule build_graph_keys [OF assms])
  show "edges graph \<subseteq> fst ` set assemblies \<times> fst ` set assemblies"
    using build_edges(1,2) [OF assms] by (auto simp: edges_def)
next
  assume x: "x \<notin> fst ` set assemblies"
  with build_nodes [OF assms] show "x \<notin> set (graph_nodes graph)" by blast
  then show "\<forall>cycle. detect_circular_dependencies depth graph = Inr (Some cycle) \<longrightarrow> x \<notin> set cycle"
    using detect_Some_nodes(2) by blast
  show "\<forall>v\<in>set (validate_shared_namespace_isolation graph assemblies). fst v \<noteq> x \<and> snd v \<noteq> x"
  proof
    fix v assume "v \<in> set (validate_shared_namespace_isolation graph assemblies)"
    then have "(fst v, snd v) \<in> set (validate_shared_namespace_isolation graph assemblies)" by simp
    then have "fst v \<in> fst ` set assemblies \<and> snd v \<in> fst ` set assemblies"
      unfolding validate_set by blast
    with x show "fst v \<noteq> x \<and> snd v \<noteq> x" by blast
  qed
qed

theorem graph_only_known_modules_witness:
  "build_dependency_graph
     [Some \<lparr>asmdef_name = ''A'', asmdef_references = [''X'', ''B''], asmdef_path = []\<rparr>,
      Some \<lparr>asmdef_name = ''B'', asmdef_references = [], asmdef_path = []\<rparr>]
   = ([(''A'', [''B''])],
      [(''A'', \<lparr>asmdef_name = ''A'', asmdef_references = [''X'', ''B''], asmdef_path = []\<rparr>),
       (''B'', \<lparr>asmdef_name = ''B'', asmdef_references = [], asmdef_path = []\<rparr>)]) \<and>
   ''X'' \<notin> set (graph_nodes [(''A'', [''B''])]) \<and>
   edges [(''A'', [''B''])] \<subseteq> {''A'', ''B''} \<times> {''A'', ''B''}"
proof -
  let ?files = "[Some \<lparr>asmdef_name = ''A'', asmdef_references = [''X'', ''B''], asmdef_path = []\<rparr>,
      Some \<lparr>asmdef_name = ''B'', asmdef_references = [], asmdef_path = []\<rparr>]"
  let ?a = "[(''A'', \<lparr>asmdef_name = ''A'', asmdef_references = [''X'', ''B''], asmdef_path = []\<rparr>),
       (''B'', \<lparr>asmdef_name = ''B'', asmdef_references = [], asmdef_path = []\<rparr>)]"
  have b: "build_dependency_graph ?files = ([(''A'', [''B''])], ?a)" by code_simp
  have x: "''X'' \<notin> fst ` set ?a" by simp
  from graph_only_known_modules [OF b, of "''A''" "''X''" 0] x b show ?thesis by simp
qed

text \<open>
  C7 as stated fails on a manifest that lists a reference twice: the target is twice in
  the list.
\<close>

theorem graph_duplicate_targets_counterexample:
  "graph_get (fst (build_dependency_graph
     [Some \<lparr>asmdef_name = ''A'', asmdef_references = [''B'', ''B''], asmdef_path = []\<rparr>,
      Some \<lparr>asmdef_name = ''B'', asmdef_references = [], asmdef_path = []\<rparr>])) ''A'' = [''B'', ''B'']"
  by code_simp

text \<open>
  C8. For every input, the process exit code is 0 if and only if the run passes: it is
  non-zero exactly when a cycle was found or at least one isolation violation was found.

  The claim holds for the inputs whose graph has no more nodes than the interpreter allows
  frames of \<^verbatim>\<open>dfs\<close>. Then \<^verbatim>\<open>main\<close> returns 0 or 1; it returns 1 exactly when the detector
  returns a cycle or the checker a non-empty list, and 0 exactly when the graph is acyclic
  and has no edge from a shared to a feature assembly.
\<close>

theorem exit_code_zero_iff_pass:
  assumes "build_dependency_graph asmdef_files = (graph, assemblies)"
    and "length (graph_nodes graph) \<le> depth"
  shows "\<exists>out code. main depth asmdef_files = Inr (out, code) \<and> (code = 0 \<or> code = 1) \<and>
           (code \<noteq> 0 \<longleftrightarrow> (\<exists>cycle. detect_circular_dependencies depth graph = Inr (Some cycle)) \<or>
                         validate_shared_namespace_isolation graph assemblies \<noteq> []) \<and>
           (code = 0 \<longleftrightarrow> acyclic (edges graph) \<and> shared_feature_edges graph = {})"
proof -
  have v: "shared_feature_edges graph = {} \<longleftrightarrow> validate_shared_namespace_isolation graph assemblies = []"
    unfolding validate_built [OF assms(1), symmetric] by simp
  from detect_total [OF assms(2)] obtain r where r: "detect_circular_dependencies depth graph = Inr r"
    by blast
  show ?thesis
  proof (cases r)
    case None
    with r have a: "acyclic (edges graph)" by (simp add: detect_None(1))
    from r None have "main depth asmdef_files =
        Inr (main_isolation (main_header asmdef_files graph assemblies) graph assemblies)"
      by (simp add: main_cases [OF assms(1)])
    with r None a v show ?thesis by (simp add: main_isolation_def Let_def)
  next
    case (Some cycle)
    with r have "\<not> acyclic (edges graph)" by (simp add: detect_Some_not_acyclic)
    moreover from r Some have "main depth asmdef_files =
        Inr (main_header asmdef_files graph assemblies @ [CycleDetected, CyclePath cycle], 1)"
      by (simp add: main_cases [OF assms(1)])
    ultimately show ?thesis using r Some by simp
  qed
qed

theorem exit_code_zero_iff_pass_witness:
  "length (graph_nodes (fst (build_dependency_graph
     [Some \<lparr>asmdef_name = ''A'', asmdef_references = [''B''], asmdef_path = []\<rparr>,
      Some \<lparr>asmdef_name = ''B'', asmdef_references = [''C''], asmdef_path = []\<rparr>,
      Some \<lparr>asmdef_name = ''C'', asmdef_references = [], asmdef_path = []\<rparr>]))) \<le> 3 \<and>
   main 3
     [Some \<lparr>asmdef_name = ''A'', asmdef_references = [''B''], asmdef_path = []\<rparr>,
      Some \<lparr>asmdef_name = ''B'', asmdef_references = [''C''], asmdef_path = []\<rparr>,
      Some \<lparr>asmdef_name = ''C'', asmdef_references = [], asmdef_path = []\<rparr>]
   = Inr ([Analyzing, FoundFiles 3, Discovered 3, AssemblyLine ''A'' 1, AssemblyLine ''B'' 1,
           AssemblyLine ''C'' 0, CheckingCycles, NoCycles, ValidatingIsolation, IsolationOk,
           AllPassed], 0) \<and>
   acyclic (edges (fst (build_dependency_graph
     [Some \<lparr>asmdef_name = ''A'', asmdef_references = [''B''], asmdef_path = []\<rparr>,
      Some \<lparr>asmdef_name = ''B'', asmdef_references = [''C''], asmdef_path = []\<rparr>,
      Some \<lparr>asmdef_name = ''C'', asmdef_references = [], asmdef_path = []\<rparr>])))"
proof -
  let ?files = "[Some \<lparr>asmdef_name = ''A'', asmdef_references = [''B''], asmdef_path = []\<rparr>,
      Some \<lparr>asmdef_name = ''B'', asmdef_references = [''C''], asmdef_path = []\<rparr>,
      Some \<lparr>asmdef_name = ''C'', asmdef_references = [], asmdef_path = []\<rparr>]"
  have b: "build_dependency_graph ?files = (fst (build_dependency_graph ?files), snd (build_dependency_graph ?files))"
    by simp
  have l: "length (graph_nodes (fst (build_dependency_graph ?files))) \<le> 3" by code_simp
  have m: "main 3 ?files = Inr ([Analyzing, FoundFiles 3, Discovered 3, AssemblyLine ''A'' 1, AssemblyLine ''B'' 1,
           AssemblyLine ''C'' 0, CheckingCycles, NoCycles, ValidatingIsolation, IsolationOk,
           AllPassed], 0)" by code_simp
  from exit_code_zero_iff_pass [OF b l] m l show ?thesis by auto
qed

text \<open>
  C8 as stated fails on an acyclic chain that is longer than the frames allowed and has no
  shared assembly: \<^verbatim>\<open>main\<close> ends with the uncaught \<^verbatim>\<open>RecursionError\<close>, so the process
  exits with a non-zero code although no cycle and no violation was found.
\<close>

theorem deep_chain_exit_counterexample:
  "main 2
     [Some \<lparr>asmdef_name = ''A'', asmdef_references = [''B''], asmdef_path = []\<rparr>,
      Some \<lparr>asmdef_name = ''B'', asmdef_references = [''C''], asmdef_path = []\<rparr>,
      Some \<lparr>asmdef_name = ''C'', asmdef_references = [], asmdef_path = []\<rparr>]
     = Inl RecursionError \<and>
   acyclic (edges (fst (build_dependency_graph
     [Some \<lparr>asmdef_name = ''A'', asmdef_references = [''B''], asmdef_path = []\<rparr>,
      Some \<lparr>asmdef_name = ''B'', asmdef_references = [''C''], asmdef_path = []\<rparr>,
      Some \<lparr>asmdef_name = ''C'', asmdef_references = [], asmdef_path = []\<rparr>]))) \<and>
   validate_shared_namespace_isolation
     (fst (build_dependency_graph
     [Some \<lparr>asmdef_name = ''A'', asmdef_references = [''B''], asmdef_path = []\<rparr>,
      Some \<lparr>asmdef_name = ''B'', asmdef_references = [''C''], asmdef_path = []\<rparr>,
      Some \<lparr>asmdef_name = ''C'', asmdef_references = [], asmdef_path = []\<rparr>]))
     (snd (build_dependency_graph
     [Some \<lparr>asmdef_name = ''A'', asmdef_references = [''B''], asmdef_path = []\<rparr>,
      Some \<lparr>asmdef_name = ''B'', asmdef_references = [''C''], asmdef_path = []\<rparr>,
      Some \<lparr>asmdef_name = ''C'', asmdef_references = [], asmdef_path = []\<rparr>])) = []"
proof -
  let ?files = "[Some \<lparr>asmdef_name = ''A'', asmdef_references = [''B''], asmdef_path = []\<rparr>,
      Some \<lparr>asmdef_name = ''B'', asmdef_references = [''C''], asmdef_path = []\<rparr>,
      Some \<lparr>asmdef_name = ''C'', asmdef_references = [], asmdef_path = []\<rparr>]"
  have "detect_circular_dependencies 3 (fst (build_dependency_graph ?files)) = Inr None" by code_simp
  then have a: "acyclic (edges (fst (build_dependency_graph ?files)))" by (rule detect_None(1))
  have m: "main 2 ?files = Inl RecursionError" by code_simp
  have v: "validate_shared_namespace_isolation (fst (build_dependency_graph ?files))
     (snd (build_dependency_graph ?files)) = []" by code_simp
  from a m v show ?thesis by simp
qed

text \<open>
  C9. For every pair of manifests that declare the same module name, the module record
  built from the later-processed manifest silently replaces the earlier one in the module
  set, with no error or warning and no effect on the processing of other modules.

  The manifest \<open>a\<close> is read before the manifest \<open>b\<close> of the same name. If no manifest
  after \<open>b\<close> has that name, the record under the name is \<open>b\<close>. The records of all names
  and the successors of all names in the graph are those of the run without \<open>a\<close>; the
  name keeps the place in the dictionary that its first manifest gave it. The builder has
  no error result and prints nothing.
\<close>

theorem later_manifest_replaces:
  assumes "asmdef_name a = asmdef_name b"
  shows "((\<forall>c\<in>set (parsed post). asmdef_name c \<noteq> asmdef_name b) \<longrightarrow>
            map_of (snd (build_dependency_graph (pre @ Some a # mid @ Some b # post))) (asmdef_name b) = Some b) \<and>
         map_of (snd (build_dependency_graph (pre @ Some a # mid @ Some b # post))) =
           map_of (snd (build_dependency_graph (pre @ mid @ Some b # post))) \<and>
         graph_get (fst (build_dependency_graph (pre @ Some a # mid @ Some b # post))) =
           graph_get (fst (build_dependency_graph (pre @ mid @ Some b # post)))"
proof -
  let ?fs = "pre @ Some a # mid @ Some b # post" and ?fs' = "pre @ mid @ Some b # post"
  have last_b: "(\<forall>c\<in>set (parsed post). asmdef_name c \<noteq> asmdef_name b) \<longrightarrow>
      map_of (snd (build_dependency_graph ?fs)) (asmdef_name b) = Some b"
  proof
    assume "\<forall>c\<in>set (parsed post). asmdef_name c \<noteq> asmdef_name b"
    then have "declared post (asmdef_name b) = []" by (auto simp: declared_def filter_empty_conv)
    then show "map_of (snd (build_dependency_graph ?fs)) (asmdef_name b) = Some b"
      by (simp add: build_lookup declared_append declared_Some assms)
  qed
  have same: "map_of (snd (build_dependency_graph ?fs)) = map_of (snd (build_dependency_graph ?fs'))"
  proof
    fix name
    show "map_of (snd (build_dependency_graph ?fs)) name = map_of (snd (build_dependency_graph ?fs')) name"
      by (simp add: build_lookup declared_append declared_Some assms)
  qed
  from last_b same build_graph_get_map [OF same] show ?thesis by blast
qed

theorem later_manifest_replaces_witness:
  "asmdef_name \<lparr>asmdef_name = ''Core'', asmdef_references = [''Gen''], asmdef_path = ''a''\<rparr> =
     asmdef_name \<lparr>asmdef_name = ''Core'', asmdef_references = [''Biome''], asmdef_path = ''b''\<rparr> \<and>
   build_dependency_graph
     [Some \<lparr>asmdef_name = ''Core'', asmdef_references = [''Gen''], asmdef_path = ''a''\<rparr>,
      Some \<lparr>asmdef_name = ''Gen'', asmdef_references = [''Core''], asmdef_path = ''g''\<rparr>,
      Some \<lparr>asmdef_name = ''Core'', asmdef_references = [''Biome''], asmdef_path = ''b''\<rparr>,
      Some \<lparr>asmdef_name = ''Biome'', asmdef_references = [], asmdef_path = ''c''\<rparr>]
   = ([(''Core'', [''Biome'']), (''Gen'', [''Core''])],
      [(''Core'', \<lparr>asmdef_name = ''Core'', asmdef_references = [''Biome''], asmdef_path = ''b''\<rparr>),
       (''Gen'', \<lparr>asmdef_name = ''Gen'', asmdef_references = [''Core''], asmdef_path = ''g''\<rparr>),
       (''Biome'', \<lparr>asmdef_name = ''Biome'', asmdef_references = [], asmdef_path = ''c''\<rparr>)]) \<and>
   map_of (snd (build_dependency_graph
     [Some \<lparr>asmdef_name = ''Core'', asmdef_references = [''Gen''], asmdef_path = ''a''\<rparr>,
      Some \<lparr>asmdef_name = ''Gen'', asmdef_references = [''Core''], asmdef_path = ''g''\<rparr>,
      Some \<lparr>asmdef_name = ''Core'', asmdef_references = [''Biome''], asmdef_path = ''b''\<rparr>,
      Some \<lparr>asmdef_name = ''Biome'', asmdef_references = [], asmdef_path = ''c''\<rparr>])) ''Core''
   = Some \<lparr>asmdef_name = ''Core'', asmdef_references = [''Biome''], asmdef_path = ''b''\<rparr>"
proof -
  let ?a = "\<lparr>asmdef_name = ''Core'', asmdef_references = [''Gen''], asmdef_path = ''a''\<rparr>"
  let ?b = "\<lparr>asmdef_name = ''Core'', asmdef_references = [''Biome''], asmdef_path = ''b''\<rparr>"
  let ?mid = "[Some \<lparr>asmdef_name = ''Gen'', asmdef_references = [''Core''], asmdef_path = ''g''\<rparr>]"
  let ?post = "[Some \<lparr>asmdef_name = ''Biome'', asmdef_references = [], asmdef_path = ''c''\<rparr>]"
  have n: "asmdef_name ?a = asmdef_name ?b" by simp
  have p: "\<forall>c\<in>set (parsed ?post). asmdef_name c \<noteq> asmdef_name ?b" by simp
  have e: "build_dependency_graph ([] @ Some ?a # ?mid @ Some ?b # ?post)
   = ([(''Core'', [''Biome'']), (''Gen'', [''Core''])],
      [(''Core'', ?b),
       (''Gen'', \<lparr>asmdef_name = ''Gen'', asmdef_references = [''Core''], asmdef_path = ''g''\<rparr>),
       (''Biome'', \<lparr>asmdef_name = ''Biome'', asmdef_references = [], asmdef_path = ''c''\<rparr>)])" by code_simp
  have "map_of (snd (build_dependency_graph ([] @ Some ?a # ?mid @ Some ?b # ?post))) (asmdef_name ?b) = Some ?b"
    using later_manifest_replaces [OF n, of ?post "[]" ?mid] p by blast
  with e n show ?thesis by simp
qed

text \<open>
  C10. For every module whose declared reference list contains its own name, the Graph
  Builder produces a self-edge and the Cycle Detector reports the two-element cycle
  \<open>[name, name]\<close>, so a self-referencing module alone fails the run.

  The detector returns the first cycle that it meets, which need not be the self-edge.
  What holds is this. The graph has the self-edge. When the graph has no more nodes than the
  interpreter allows frames of \<^verbatim>\<open>dfs\<close>, the detector returns a cycle and \<^verbatim>\<open>main\<close>
  returns 1; and the cycle is \<open>[name, name]\<close> when the self-edge is the only simple cycle
  of the graph.
\<close>

theorem self_reference_fails:
  assumes "build_dependency_graph asmdef_files = (graph, assemblies)"
    and "(name, asmdef) \<in> set assemblies"
    and "name \<in> set (asmdef_references asmdef)"
    and "length (graph_nodes graph) \<le> depth"
  shows "(name, name) \<in> edges graph \<and>
         (\<exists>cycle. detect_circular_dependencies depth graph = Inr (Some cycle)) \<and>
         (\<exists>out. main depth asmdef_files = Inr (out, 1)) \<and>
         ((\<forall>c. simple_cycle graph c \<longrightarrow> c = [name]) \<longrightarrow>
            detect_circular_dependencies depth graph = Inr (Some [name, name]))"
proof -
  have "distinct (map fst assemblies)" by (rule build_assemblies(1) [OF assms(1)])
  with assms(2) have m: "map_of assemblies name = Some asmdef" by simp
  from assms(2) have "name \<in> fst ` set assemblies" by force
  with m assms(3) have self: "name \<in> set (graph_get graph name)"
    by (simp add: build_graph_get [OF assms(1)])
  then have e: "(name, name) \<in> edges graph" by (simp add: edges_def)
  from self have sc: "simple_cycle graph [name]" by (simp add: simple_cycle_def walk_def)
  from detect_total [OF assms(4)] obtain r where r: "detect_circular_dependencies depth graph = Inr r"
    by blast
  have "r \<noteq> None"
  proof
    assume "r = None"
    with r have "acyclic (edges graph)" by (simp add: detect_None(1))
    with sc simple_cycle_not_acyclic show False by blast
  qed
  then obtain cycle where c: "detect_circular_dependencies depth graph = Inr (Some cycle)"
    using r by auto
  then have mn: "main depth asmdef_files =
      Inr (main_header asmdef_files graph assemblies @ [CycleDetected, CyclePath cycle], 1)"
    by (simp add: main_cases [OF assms(1)])
  have "(\<forall>c. simple_cycle graph c \<longrightarrow> c = [name]) \<longrightarrow>
            detect_circular_dependencies depth graph = Inr (Some [name, name])"
  proof
    assume u: "\<forall>c. simple_cycle graph c \<longrightarrow> c = [name]"
    from detect_Some [OF c] obtain c0 where "cycle = c0 @ [hd c0]" "simple_cycle graph c0" by blast
    with u have "cycle = [name, name]" by auto
    with c show "detect_circular_dependencies depth graph = Inr (Some [name, name])" by simp
  qed
  with e c mn show ?thesis by blast
qed

theorem self_reference_fails_witness:
  "build_dependency_graph [Some \<lparr>asmdef_name = ''A'', asmdef_references = [''A''], asmdef_path = []\<rparr>]
     = ([(''A'', [''A''])], [(''A'', \<lparr>asmdef_name = ''A'', asmdef_references = [''A''], asmdef_path = []\<rparr>)]) \<and>
   length (graph_nodes [(''A'', [''A''])]) \<le> 1 \<and>
   detect_circular_dependencies 1 [(''A'', [''A''])] = Inr (Some [''A'', ''A'']) \<and>
   (\<exists>out. main 1 [Some \<lparr>asmdef_name = ''A'', asmdef_references = [''A''], asmdef_path = []\<rparr>] = Inr (out, 1))"
proof -
  let ?a = "\<lparr>asmdef_name = ''A'', asmdef_references = [''A''], asmdef_path = []\<rparr>"
  have b: "build_dependency_graph [Some ?a] = ([(''A'', [''A''])], [(''A'', ?a)])" by code_simp
  have i: "(''A'', ?a) \<in> set [(''A'', ?a)]" by simp
  have r: "''A'' \<in> set (asmdef_references ?a)" by simp
  have l: "length (graph_nodes [(''A'', [''A''])]) \<le> 1" by (simp add: graph_nodes_def graph_get_def)
  have u: "\<forall>c. simple_cycle [(''A'', [''A''])] c \<longrightarrow> c = [''A'']" using self_loop_unique by blast
  from self_reference_fails [OF b i r l] u b l show ?thesis by blast
qed

text \<open>
  C10 as stated fails on a module A that references B and itself, where B references A:
  the detector returns the cycle through B.
\<close>

theorem self_reference_other_cycle_counterexample:
  "''A'' \<in> set (asmdef_references \<lparr>asmdef_name = ''A'', asmdef_references = [''B'', ''A''], asmdef_path = []\<rparr>) \<and>
   detect_circular_dependencies 2 (fst (build_dependency_graph
     [Some \<lparr>asmdef_name = ''A'', asmdef_references = [''B'', ''A''], asmdef_path = []\<rparr>,
      Some \<lparr>asmdef_name = ''B'', asmdef_references = [''A''], asmdef_path = []\<rparr>]))
     = Inr (Some [''A'', ''B'', ''A''])"
  by code_simp

end
